theory Spec2Isabelle
  imports Main
begin

section \<open>Strings and paths\<close>

text \<open>
  The checklist script works on Python strings: dotted import paths and POSIX file
  paths. The library functions it calls are modelled here on \<open>string\<close>, following
  their POSIX implementations (\<open>os.sep\<close> is the slash).
\<close>

definition os_sep :: char where
  "os_sep = CHR ''/''"

text \<open>\<open>s.split(c)\<close> for a one-character separator: one more piece than separators.\<close>

fun split_on :: "char \<Rightarrow> string \<Rightarrow> string list" where
  "split_on c [] = [[]]"
| "split_on c (x # xs) =
     (if x = c then [] # split_on c xs
      else (case split_on c xs of
              [] \<Rightarrow> [[x]]
            | w # ws \<Rightarrow> (x # w) # ws))"

text \<open>\<open>sep.join(parts)\<close>.\<close>

fun join_with :: "string \<Rightarrow> string list \<Rightarrow> string" where
  "join_with sep [] = []"
| "join_with sep [p] = p"
| "join_with sep (p # q # ps) = p @ sep @ join_with sep (q # ps)"

text \<open>\<open>s.replace(a, b)\<close> for one-character \<open>a\<close> and \<open>b\<close>.\<close>

definition replace_char :: "char \<Rightarrow> char \<Rightarrow> string \<Rightarrow> string" where
  "replace_char a b s = map (\<lambda>c. if c = a then b else c) s"

text \<open>\<open>os.path.join(a, b)\<close>.\<close>

definition os_path_join :: "string \<Rightarrow> string \<Rightarrow> string" where
  "os_path_join a b =
     (if b \<noteq> [] \<and> hd b = os_sep then b
      else if a = [] \<or> last a = os_sep then a @ b
      else a @ [os_sep] @ b)"

text \<open>
  \<open>os.path.split(p)\<close>: the head runs up to and including the last slash, and loses its
  trailing slashes unless it consists of slashes only; the tail is what follows.
\<close>

definition os_path_split :: "string \<Rightarrow> string \<times> string" where
  "os_path_split p =
     (let head = rev (dropWhile (\<lambda>c. c \<noteq> os_sep) (rev p));
          tail = rev (takeWhile (\<lambda>c. c \<noteq> os_sep) (rev p))
      in (if head \<noteq> [] \<and> \<not> list_all (\<lambda>c. c = os_sep) head
          then rev (dropWhile (\<lambda>c. c = os_sep) (rev head))
          else head,
          tail))"

text \<open>
  \<open>os.path.splitext(p)\<close>: the extension starts at the last dot of the last path
  component, unless only dots precede it there.
\<close>

definition os_path_splitext :: "string \<Rightarrow> string \<times> string" where
  "os_path_splitext p =
     (let base = rev (takeWhile (\<lambda>c. c \<noteq> os_sep) (rev p));
          dir = rev (dropWhile (\<lambda>c. c \<noteq> os_sep) (rev p))
      in if CHR ''.'' \<in> set base then
           (let ext = CHR ''.'' # rev (takeWhile (\<lambda>c. c \<noteq> CHR ''.'') (rev base));
                stem = rev (tl (dropWhile (\<lambda>c. c \<noteq> CHR ''.'') (rev base)))
            in if \<exists>c \<in> set stem. c \<noteq> CHR ''.'' then (dir @ stem, ext) else (p, []))
         else (p, []))"

section \<open>The repository tree\<close>

text \<open>
  What \<open>ast.parse\<close> makes of a file: a syntax error, or the statements of the module's
  top level. Only the two import statements matter; a statement of any other kind,
  whatever it contains, is \<open>OtherStmt\<close>.
  \<open>Import names\<close> is \<open>import a.b, c\<close>; \<open>ImportFrom module names level\<close> is
  \<open>from module import names\<close> with \<open>level\<close> leading dots, and \<open>module = None\<close> for
  \<open>from . import x\<close>.
\<close>

datatype stmt =
    Import "string list"
  | ImportFrom "string option" "string list" nat
  | OtherStmt

datatype source = Malformed | Module "stmt list"

text \<open>
  A file as the validators see it: what \<open>ast.parse(f.read())\<close> makes of it (reading
  itself succeeds), whether \<open>os.access(fp, os.X_OK)\<close> holds, and
  \<open>os.path.getsize(fp)\<close>.
\<close>

record fs_file =
  parsed :: source
  executable :: bool
  fsize :: nat

text \<open>
  A directory: its subdirectories and its files, by name, in the order in which the
  directory scan of \<open>os.walk\<close> lists them.
\<close>

datatype tree = Dir (subdirs: "(string \<times> tree) list") (files: "(string \<times> fs_file) list")

datatype error = SyntaxError | TypeError | OSError

section \<open>RepoValidator\<close>

text \<open>
  \<open>_validate(self, root, dirs, files)\<close> of a validator: from the validator's own
  state, the directory path, the names of its subdirectories and its files, to the
  flagged items, the list \<open>dirs\<close> as the call leaves it (the walk descends only into
  what remains there) and the new state; or an exception.
\<close>

type_synonym 's dir_validator =
  "'s \<Rightarrow> string \<Rightarrow> string list \<Rightarrow> (string \<times> fs_file) list
     \<Rightarrow> error + (string list \<times> string list \<times> 's)"

text \<open>
  The loop \<open>for root, dirs, files in os.walk(root)\<close> of \<open>RepoValidator.validate\<close>,
  top-down: the directory itself, then each subdirectory whose name is still in
  \<open>dirs\<close>, in order (the validators of this script only ever remove names from
  \<open>dirs\<close>). The state and the flagged items so far are threaded through. The root
  directory exists; links and unreadable directories are left out.
\<close>

fun walk :: "'s dir_validator \<Rightarrow> string \<Rightarrow> tree \<Rightarrow> 's \<times> string list
               \<Rightarrow> error + ('s \<times> string list)"
and walk_dirs :: "'s dir_validator \<Rightarrow> string \<Rightarrow> string list \<Rightarrow> (string \<times> tree) list
               \<Rightarrow> 's \<times> string list \<Rightarrow> error + ('s \<times> string list)" where
  "walk v root (Dir ds fs) (s, invalids) =
     (case v s root (map fst ds) fs of
        Inl e \<Rightarrow> Inl e
      | Inr (result, dirs', s') \<Rightarrow> walk_dirs v root dirs' ds (s', invalids @ result))"
| "walk_dirs v root dirs' [] acc = Inr acc"
| "walk_dirs v root dirs' ((name, t) # ds) acc =
     (if name \<in> set dirs' then
        (case walk v (os_path_join root name) t acc of
           Inl e \<Rightarrow> Inl e
         | Inr acc' \<Rightarrow> walk_dirs v root dirs' ds acc')
      else walk_dirs v root dirs' ds acc)"

text \<open>
  \<open>RepoValidator.validate\<close>: the success flag and the report, and the state the
  validator object is left in.
\<close>

definition RepoValidator_validate ::
  "string \<Rightarrow> 's dir_validator \<Rightarrow> 's \<Rightarrow> string \<Rightarrow> tree
     \<Rightarrow> error + ((bool \<times> string list) \<times> 's)" where
  "RepoValidator_validate reason v s root t =
     (case walk v root t (s, []) of
        Inl e \<Rightarrow> Inl e
      | Inr (s', invalids) \<Rightarrow>
          Inr (if invalids \<noteq> []
               then (False, (reason @ '':'') # map (\<lambda>invalid. ''    '' @ invalid) invalids)
               else (True, []),
               s'))"

section \<open>The three simple validators\<close>

definition InitValidator_reason :: string where
  "InitValidator_reason = ''Directories missing init files''"

definition InitValidator_skip_dirs :: "string list" where
  "InitValidator_skip_dirs = [''data'', ''__pycache__'']"

definition InitValidator_validate :: "string list \<Rightarrow> unit dir_validator" where
  "InitValidator_validate skip_dirs s root dirs fs =
     Inr (if ''__init__.py'' \<notin> set (map fst fs) then [root] else [],
          fold (\<lambda>skip_dir ds. if skip_dir \<in> set ds then remove1 skip_dir ds else ds)
               skip_dirs dirs,
          s)"

definition ExecPermissionValidator_reason :: string where
  "ExecPermissionValidator_reason = ''Library code with execute permissions''"

definition ExecPermissionValidator_extensions :: "string list" where
  "ExecPermissionValidator_extensions = [''.py'', ''.pyx'', ''.h'', ''.c'']"

fun exec_loop :: "string list \<Rightarrow> string \<Rightarrow> (string \<times> fs_file) list \<Rightarrow> string list
                    \<Rightarrow> string list" where
  "exec_loop extensions root [] invalid_fps = invalid_fps"
| "exec_loop extensions root ((f, x) # rest) invalid_fps =
     (if snd (os_path_splitext f) \<in> set extensions \<and> executable x
      then exec_loop extensions root rest (invalid_fps @ [os_path_join root f])
      else exec_loop extensions root rest invalid_fps)"

definition ExecPermissionValidator_validate :: "string list \<Rightarrow> unit dir_validator" where
  "ExecPermissionValidator_validate extensions s root dirs fs =
     Inr (exec_loop extensions root fs [], dirs, s)"

definition GeneratedCythonValidator_reason :: string where
  "GeneratedCythonValidator_reason = ''Cython code missing generated C code''"

text \<open>\<open>ext_to_base[ext]\<close> once the first loop has filled the dictionary.\<close>

definition ext_to_base :: "(string \<times> fs_file) list \<Rightarrow> string \<Rightarrow> string list" where
  "ext_to_base fs ext =
     map fst (filter (\<lambda>be. snd be = ext) (map (\<lambda>f. os_path_splitext (fst f)) fs))"

text \<open>
  The second loop. \<open>os.path.getsize(c_fp)\<close> reads the directory's file of that name
  and raises \<open>OSError\<close> when there is none.
\<close>

fun cython_loop :: "string \<Rightarrow> string \<Rightarrow> string \<Rightarrow> (string \<times> fs_file) list \<Rightarrow> string list
                      \<Rightarrow> string list \<Rightarrow> error + string list" where
  "cython_loop cython_ext c_ext root fs [] invalid_fps = Inr invalid_fps"
| "cython_loop cython_ext c_ext root fs (cython_base # rest) invalid_fps =
     (let cython_fp = os_path_join root (cython_base @ cython_ext)
      in if cython_base \<notin> set (ext_to_base fs c_ext)
         then cython_loop cython_ext c_ext root fs rest (invalid_fps @ [cython_fp])
         else (case map_of fs (cython_base @ c_ext) of
                 None \<Rightarrow> Inl OSError
               | Some c_file \<Rightarrow>
                   if fsize c_file \<le> 0
                   then cython_loop cython_ext c_ext root fs rest (invalid_fps @ [cython_fp])
                   else cython_loop cython_ext c_ext root fs rest invalid_fps))"

definition GeneratedCythonValidator_validate :: "string \<Rightarrow> string \<Rightarrow> unit dir_validator" where
  "GeneratedCythonValidator_validate cython_ext c_ext s root dirs fs =
     (case cython_loop cython_ext c_ext root fs (ext_to_base fs cython_ext) [] of
        Inl e \<Rightarrow> Inl e
      | Inr invalid_fps \<Rightarrow> Inr (invalid_fps, dirs, s))"

section \<open>APIRegressionValidator\<close>

definition APIRegressionValidator_reason :: string where
  "APIRegressionValidator_reason =
     ''The following tests import `A` but should import `B` (file: A => B)''"

text \<open>\<open>self._imports\<close>: from the imported object's name to a dotted import path.\<close>

type_synonym registry = "string \<rightharpoonup> string"

text \<open>\<open>len(s.split('.'))\<close>.\<close>

definition nsegs :: "string \<Rightarrow> nat" where
  "nsegs s = length (split_on CHR ''.'' s)"

text \<open>\<open>s.split('.')[-1]\<close>; the list of pieces is never empty.\<close>

definition last_seg :: "string \<Rightarrow> string" where
  "last_seg s = last (split_on CHR ''.'' s)"

text \<open>The while loop of \<open>_parse_file\<close> that drops \<open>extra\<close> trailing components.\<close>

fun drop_levels :: "nat \<Rightarrow> string \<Rightarrow> string" where
  "drop_levels 0 prefix = prefix"
| "drop_levels (Suc extra) prefix = drop_levels extra (fst (os_path_split prefix))"

text \<open>
  The loop of \<open>_parse_file\<close> over the top-level statements. The list comprehension of a
  from-import concatenates \<open>prefix + node.module\<close> once for each name, which raises
  \<open>TypeError\<close> when the module is \<open>None\<close>.
\<close>

fun collect_imports :: "string \<Rightarrow> stmt list \<Rightarrow> string list \<Rightarrow> error + string list" where
  "collect_imports root [] imports = Inr imports"
| "collect_imports root (Import names # rest) imports =
     collect_imports root rest (imports @ names)"
| "collect_imports root (ImportFrom module names level # rest) imports =
     (let prefix = (if level > 0
                    then replace_char os_sep CHR ''.'' (drop_levels (level - 1) root) @ ''.''
                    else [])
      in if names = [] then collect_imports root rest imports
         else (case module of
                 None \<Rightarrow> Inl TypeError
               | Some m \<Rightarrow>
                   collect_imports root rest
                     (imports @ map (\<lambda>x. join_with ''.'' [prefix @ m, x]) names)))"
| "collect_imports root (OtherStmt # rest) imports = collect_imports root rest imports"

definition parse_file :: "fs_file \<Rightarrow> string \<Rightarrow> error + string list" where
  "parse_file f root =
     (case parsed f of
        Malformed \<Rightarrow> Inl SyntaxError
      | Module body \<Rightarrow>
          (case collect_imports root body [] of
             Inl e \<Rightarrow> Inl e
           | Inr imports \<Rightarrow>
               Inr (filter (\<lambda>imp. hd (split_on CHR ''.'' imp) = ''skbio'') imports)))"

text \<open>One round of the loop of \<open>_add_imports\<close>.\<close>

definition add_import :: "string \<Rightarrow> string \<Rightarrow> registry \<Rightarrow> registry" where
  "add_import package imp R =
     (let key = last_seg imp;
          val = (if nsegs package + 1 < nsegs imp
                 then join_with ''.'' [package, key] else imp)
      in case R key of
           Some sub \<Rightarrow> if nsegs sub > nsegs val then R(key \<mapsto> val) else R
         | None \<Rightarrow> R(key \<mapsto> val))"

fun add_imports :: "string list \<Rightarrow> string \<Rightarrow> registry \<Rightarrow> registry" where
  "add_imports [] package R = R"
| "add_imports (imp # rest) package R = add_imports rest package (add_import package imp R)"

definition minimal_import :: "registry \<Rightarrow> string \<Rightarrow> string option" where
  "minimal_import R imp =
     (let key = last_seg imp
      in case R key of
           None \<Rightarrow> None
         | Some substitute \<Rightarrow>
             if nsegs substitute = nsegs imp then None else Some substitute)"

text \<open>
  The first loop of \<open>_validate\<close>, over the files of one directory: the registry and
  \<open>test_imports\<close> so far are threaded through.
\<close>

fun files_loop :: "string \<Rightarrow> (string \<times> fs_file) list
                     \<Rightarrow> registry \<times> (string \<times> string list) list
                     \<Rightarrow> error + (registry \<times> (string \<times> string list) list)" where
  "files_loop root [] st = Inr st"
| "files_loop root ((name, f) # rest) (R, test_imports) =
     (let current_fp = os_path_join root name;
          package = fst (os_path_splitext current_fp);
          ext = snd (os_path_splitext current_fp)
      in if ext = ''.py'' then
           (case parse_file f root of
              Inl e \<Rightarrow> Inl e
            | Inr imports \<Rightarrow>
                (let test_imports' =
                       (if snd (os_path_split root) = ''tests''
                        then test_imports @ [(current_fp, imports)] else test_imports);
                     temp = split_on os_sep package
                 in if last temp = ''__init__''
                    then files_loop root rest
                           (add_imports imports (join_with ''.'' (butlast temp)) R,
                            test_imports')
                    else files_loop root rest (R, test_imports')))
         else files_loop root rest (R, test_imports))"

text \<open>The second loop of \<open>_validate\<close>, over \<open>test_imports\<close>.\<close>

definition check_file :: "registry \<Rightarrow> string \<times> string list \<Rightarrow> string list" where
  "check_file R t =
     concat (map (\<lambda>imp. case minimal_import R imp of
                          None \<Rightarrow> []
                        | Some substitute \<Rightarrow> [fst t @ '': '' @ imp @ '' => '' @ substitute])
                 (snd t))"

definition check_loop :: "registry \<Rightarrow> (string \<times> string list) list \<Rightarrow> string list" where
  "check_loop R test_imports = concat (map (check_file R) test_imports)"

definition APIRegressionValidator_validate :: "registry dir_validator" where
  "APIRegressionValidator_validate R root dirs fs =
     (case files_loop root fs (R, []) of
        Inl e \<Rightarrow> Inl e
      | Inr (R', test_imports) \<Rightarrow> Inr (check_loop R' test_imports, dirs, R'))"

section \<open>main\<close>

text \<open>
  A validator object ready to be run by \<open>main\<close>: \<open>validate(root)\<close> on the freshly
  constructed object.
\<close>

type_synonym check = "string \<Rightarrow> tree \<Rightarrow> error + (bool \<times> string list)"

definition InitValidator_check :: check where
  "InitValidator_check root t =
     map_sum id fst (RepoValidator_validate InitValidator_reason
                       (InitValidator_validate InitValidator_skip_dirs) () root t)"

definition ExecPermissionValidator_check :: check where
  "ExecPermissionValidator_check root t =
     map_sum id fst (RepoValidator_validate ExecPermissionValidator_reason
                       (ExecPermissionValidator_validate ExecPermissionValidator_extensions)
                       () root t)"

definition GeneratedCythonValidator_check :: check where
  "GeneratedCythonValidator_check root t =
     map_sum id fst (RepoValidator_validate GeneratedCythonValidator_reason
                       (GeneratedCythonValidator_validate ''.pyx'' ''.c'') () root t)"

definition APIRegressionValidator_check :: check where
  "APIRegressionValidator_check root t =
     map_sum id fst (RepoValidator_validate APIRegressionValidator_reason
                       APIRegressionValidator_validate Map.empty root t)"

definition validators :: "check list" where
  "validators = [InitValidator_check, ExecPermissionValidator_check,
                 GeneratedCythonValidator_check, APIRegressionValidator_check]"

text \<open>
  The loop of \<open>main\<close>: the return code and what has been written to \<open>sys.stderr\<close> so
  far. An exception in a validator ends the loop; what was written stays written.
\<close>

fun main_loop :: "check list \<Rightarrow> string \<Rightarrow> tree \<Rightarrow> int \<times> string \<Rightarrow> string \<times> (error + int)" where
  "main_loop [] root t (return_code, err) = (err, Inr return_code)"
| "main_loop (validator # rest) root t (return_code, err) =
     (case validator root t of
        Inl e \<Rightarrow> (err, Inl e)
      | Inr (success, msg) \<Rightarrow>
          if \<not> success
          then main_loop rest root t (1, err @ join_with [CHR 0x0A] msg @ [CHR 0x0A, CHR 0x0A])
          else main_loop rest root t (return_code, err))"

definition main :: "tree \<Rightarrow> string \<times> (error + int)" where
  "main t = main_loop validators ''skbio'' t (0, [])"

section \<open>The walk as a list, and what each file contributes\<close>

text \<open>
  The directories \<open>os.walk\<close> yields when nothing is removed from \<open>dirs\<close>: each with its
  path and its files, in the order of the visit.
\<close>

fun os_walk :: "string \<Rightarrow> tree \<Rightarrow> (string \<times> (string \<times> fs_file) list) list"
and os_walk_dirs :: "string \<Rightarrow> (string \<times> tree) list \<Rightarrow> (string \<times> (string \<times> fs_file) list) list"
where
  "os_walk root (Dir ds fs) = (root, fs) # os_walk_dirs root ds"
| "os_walk_dirs root [] = []"
| "os_walk_dirs root ((name, t) # ds) = os_walk (os_path_join root name) t @ os_walk_dirs root ds"

text \<open>A validator that leaves \<open>dirs\<close> alone, run over the listed directories.\<close>

fun run_dirs :: "('s \<Rightarrow> string \<Rightarrow> (string \<times> fs_file) list \<Rightarrow> error + (string list \<times> 's))
                   \<Rightarrow> (string \<times> (string \<times> fs_file) list) list
                   \<Rightarrow> 's \<times> string list \<Rightarrow> error + ('s \<times> string list)" where
  "run_dirs step [] acc = Inr acc"
| "run_dirs step ((root, fs) # es) (s, invalids) =
     (case step s root fs of
        Inl e \<Rightarrow> Inl e
      | Inr (result, s') \<Rightarrow> run_dirs step es (s', invalids @ result))"

definition api_dir :: "registry \<Rightarrow> string \<Rightarrow> (string \<times> fs_file) list
                         \<Rightarrow> error + (string list \<times> registry)" where
  "api_dir R root fs =
     (case files_loop root fs (R, []) of
        Inl e \<Rightarrow> Inl e
      | Inr (R', test_imports) \<Rightarrow> Inr (check_loop R' test_imports, R'))"

text \<open>The tests \<open>_validate\<close> makes on the path of a file.\<close>

definition is_py :: "string \<Rightarrow> string \<Rightarrow> bool" where
  "is_py root name = (snd (os_path_splitext (os_path_join root name)) = ''.py'')"

definition is_init :: "string \<Rightarrow> string \<Rightarrow> bool" where
  "is_init root name =
     (last (split_on os_sep (fst (os_path_splitext (os_path_join root name)))) = ''__init__'')"

definition package_of :: "string \<Rightarrow> string \<Rightarrow> string" where
  "package_of root name =
     join_with ''.'' (butlast (split_on os_sep (fst (os_path_splitext (os_path_join root name)))))"

definition is_tests_dir :: "string \<Rightarrow> bool" where
  "is_tests_dir root = (snd (os_path_split root) = ''tests'')"

text \<open>
  The candidate \<open>_add_imports\<close> forms from one import of a package: the key and the
  path offered for it. Offering it to the registry stores it unless the registry
  already holds a path for the key with no more segments.
\<close>

definition candidate :: "string \<Rightarrow> string \<Rightarrow> string \<times> string" where
  "candidate package imp =
     (last_seg imp,
      if nsegs package + 1 < nsegs imp then join_with ''.'' [package, last_seg imp] else imp)"

definition offer :: "string \<times> string \<Rightarrow> registry \<Rightarrow> registry" where
  "offer c R =
     (case R (fst c) of
        Some sub \<Rightarrow> if nsegs sub > nsegs (snd c) then R(fst c \<mapsto> snd c) else R
      | None \<Rightarrow> R(fst c \<mapsto> snd c))"

text \<open>The first exception the files of a directory raise, if any.\<close>

fun dir_error :: "string \<Rightarrow> (string \<times> fs_file) list \<Rightarrow> error option" where
  "dir_error root [] = None"
| "dir_error root ((name, f) # rest) =
     (if is_py root name
      then (case parse_file f root of Inl e \<Rightarrow> Some e | Inr imports \<Rightarrow> dir_error root rest)
      else dir_error root rest)"

fun walk_error :: "(string \<times> (string \<times> fs_file) list) list \<Rightarrow> error option" where
  "walk_error [] = None"
| "walk_error ((root, fs) # es) =
     (case dir_error root fs of Some e \<Rightarrow> Some e | None \<Rightarrow> walk_error es)"

text \<open>The candidates a file adds to the registry, and what it adds to \<open>test_imports\<close>.\<close>

definition file_candidates :: "string \<Rightarrow> string \<times> fs_file \<Rightarrow> (string \<times> string) list" where
  "file_candidates root nf =
     (if is_py root (fst nf) \<and> is_init root (fst nf)
      then (case parse_file (snd nf) root of
              Inl e \<Rightarrow> []
            | Inr imports \<Rightarrow> map (candidate (package_of root (fst nf))) imports)
      else [])"

definition file_tests :: "string \<Rightarrow> string \<times> fs_file \<Rightarrow> (string \<times> string list) list" where
  "file_tests root nf =
     (if is_py root (fst nf) \<and> is_tests_dir root
      then (case parse_file (snd nf) root of
              Inl e \<Rightarrow> []
            | Inr imports \<Rightarrow> [(os_path_join root (fst nf), imports)])
      else [])"

definition dir_candidates :: "string \<times> (string \<times> fs_file) list \<Rightarrow> (string \<times> string) list" where
  "dir_candidates d = concat (map (file_candidates (fst d)) (snd d))"

definition dir_tests :: "string \<times> (string \<times> fs_file) list \<Rightarrow> (string \<times> string list) list" where
  "dir_tests d = concat (map (file_tests (fst d)) (snd d))"

text \<open>The registry once all candidates of the listed directories have been offered.\<close>

definition registry_after :: "(string \<times> (string \<times> fs_file) list) list \<Rightarrow> registry \<Rightarrow> registry" where
  "registry_after es R = fold offer (concat (map dir_candidates es)) R"

text \<open>
  The flagged lines of a walk: the test files of each directory are checked against
  the registry as it is once that directory's own files have been added.
\<close>

fun violations :: "(string \<times> (string \<times> fs_file) list) list \<Rightarrow> registry \<Rightarrow> string list" where
  "violations [] R = []"
| "violations (d # es) R =
     check_loop (registry_after [d] R) (dir_tests d) @ violations es (registry_after [d] R)"

text \<open>
  A validator that never touches \<open>dirs\<close> is given by what it does with the path and
  the files of a directory.
\<close>

definition keeps_dirs :: "'s dir_validator \<Rightarrow> ('s \<Rightarrow> string \<Rightarrow> (string \<times> fs_file) list \<Rightarrow> error + (string list \<times> 's)) \<Rightarrow> bool" where
  "keeps_dirs v step = (\<forall>s root dirs fs. v s root dirs fs =
       (case step s root fs of Inl e \<Rightarrow> Inl e | Inr (result, s') \<Rightarrow> Inr (result, dirs, s')))"

text \<open>The success flag and the report \<open>validate\<close> makes of the flagged items.\<close>

definition report :: "string \<Rightarrow> string list \<Rightarrow> bool \<times> string list" where
  "report reason invalids =
     (if invalids \<noteq> []
      then (False, (reason @ '':'') # map (\<lambda>invalid. ''    '' @ invalid) invalids)
      else (True, []))"

section \<open>Example files and trees\<close>

text \<open>A module whose only statement is \<open>from . import name\<close>.\<close>

definition from_dot_file :: fs_file where
  "from_dot_file = \<lparr>parsed = Module [ImportFrom None [''name''] 1], executable = False, fsize = 1\<rparr>"

text \<open>A parsed module that is not executable, and a file that does not parse.\<close>

definition py_file :: "stmt list \<Rightarrow> fs_file" where
  "py_file body = \<lparr>parsed = Module body, executable = False, fsize = 1\<rparr>"

definition malformed_file :: fs_file where
  "malformed_file = \<lparr>parsed = Malformed, executable = False, fsize = 1\<rparr>"

text \<open>
  A package directory with an init file, a file that does not parse and a module that
  does.
\<close>

definition broken_tree :: tree where
  "broken_tree =
     Dir [] [(''__init__.py'', py_file []),
             (''broken.py'', malformed_file),
             (''util.py'', py_file [Import [''skbio.util'']])]"

text \<open>
  \<open>skbio/a/__init__.py\<close> holds \<open>from skbio.a.b import foo\<close>, and
  \<open>skbio/a/tests/test_foo.py\<close> holds \<open>from skbio import foo\<close>, which names the
  module \<open>skbio/foo.py\<close>.
\<close>

definition shorter_test_tree :: tree where
  "shorter_test_tree =
     Dir [(''a'',
           Dir [(''tests'',
                 Dir [] [(''__init__.py'', py_file []),
                         (''test_foo.py'', py_file [ImportFrom (Some ''skbio'') [''foo''] 0])])]
               [(''__init__.py'', py_file [ImportFrom (Some ''skbio.a.b'') [''foo''] 0]),
                (''b.py'', py_file [OtherStmt])])]
         [(''__init__.py'', py_file [OtherStmt]),
          (''foo.py'', py_file [OtherStmt])]"

text \<open>A tree without files: directories only.\<close>

fun no_files :: "tree \<Rightarrow> bool"
and no_files_list :: "(string \<times> tree) list \<Rightarrow> bool" where
  "no_files (Dir ds fs) = (fs = [] \<and> no_files_list ds)"
| "no_files_list [] = True"
| "no_files_list ((name, t) # ds) = (no_files t \<and> no_files_list ds)"

section \<open>Runs of the core check\<close>

text \<open>
  \<open>self._imports.get(key)\<close> once \<open>validate(root)\<close> has returned on a fresh
  \<open>APIRegressionValidator\<close>.
\<close>

definition imports_after :: "string \<Rightarrow> tree \<Rightarrow> string \<Rightarrow> error + string option" where
  "imports_after root t key =
     map_sum id (\<lambda>r. snd r key)
       (RepoValidator_validate APIRegressionValidator_reason APIRegressionValidator_validate
          Map.empty root t)"

text \<open>
  \<open>v = APIRegressionValidator(); r1 = v.validate(root); r2 = v.validate(root)\<close>: the
  second call starts from the registry the first one left in \<open>v\<close>.
\<close>

definition validate_twice :: "string \<Rightarrow> tree
    \<Rightarrow> error + ((bool \<times> string list) \<times> (bool \<times> string list))" where
  "validate_twice root t =
     (case RepoValidator_validate APIRegressionValidator_reason APIRegressionValidator_validate
             Map.empty root t of
        Inl e \<Rightarrow> Inl e
      | Inr (r1, R1) \<Rightarrow>
          (case RepoValidator_validate APIRegressionValidator_reason
                  APIRegressionValidator_validate R1 root t of
             Inl e \<Rightarrow> Inl e
           | Inr (r2, R2) \<Rightarrow> Inr (r1, r2)))"

text \<open>
  The two passes the specification asks for, with the code's own rule for what a
  file adds: first every directory of the walk adds its candidates to the registry,
  then every test file of the walk is checked against the registry so built.
\<close>

definition two_pass_validate :: "string \<Rightarrow> tree \<Rightarrow> error + (bool \<times> string list)" where
  "two_pass_validate root t =
     (case walk_error (os_walk root t) of
        Some e \<Rightarrow> Inl e
      | None \<Rightarrow>
          Inr (report APIRegressionValidator_reason
                 (check_loop (registry_after (os_walk root t) Map.empty)
                    (concat (map dir_tests (os_walk root t))))))"

text \<open>
  Whether the registry already holds, for the key of a candidate, a path with no more
  segments than the candidate's.
\<close>

definition absorbs :: "registry \<Rightarrow> string \<times> string \<Rightarrow> bool" where
  "absorbs R c = (case R (fst c) of None \<Rightarrow> False | Some s \<Rightarrow> nsegs s \<le> nsegs (snd c))"

text \<open>
  Scenario A: \<open>skbio/sub/__init__.py\<close> holds \<open>from .mod import foo\<close>, and
  \<open>skbio/sub/tests/test_mod.py\<close> holds \<open>from skbio.sub.mod import foo\<close>.
\<close>

definition scenario_tree :: tree where
  "scenario_tree =
     Dir [(''sub'',
           Dir [(''tests'',
                 Dir [] [(''__init__.py'', py_file []),
                         (''test_mod.py'',
                          py_file [ImportFrom (Some ''skbio.sub.mod'') [''foo''] 0])])]
               [(''__init__.py'', py_file [ImportFrom (Some ''mod'') [''foo''] 1]),
                (''mod.py'', py_file [OtherStmt])])]
         [(''__init__.py'', py_file [])]"

text \<open>
  The same import in a test file of \<open>skbio/aaa/tests\<close>, a directory the walk visits
  before \<open>skbio/sub\<close>.
\<close>

definition early_test_tree :: tree where
  "early_test_tree =
     Dir [(''aaa'',
           Dir [(''tests'',
                 Dir [] [(''__init__.py'', py_file []),
                         (''test_x.py'',
                          py_file [ImportFrom (Some ''skbio.sub.mod'') [''foo''] 0])])]
               [(''__init__.py'', py_file [])]),
          (''sub'',
           Dir [] [(''__init__.py'', py_file [ImportFrom (Some ''skbio.sub.mod'') [''foo''] 0]),
                   (''mod.py'', py_file [OtherStmt])])]
         [(''__init__.py'', py_file [])]"

text \<open>
  \<open>skbio/aaa/bbb/__init__.py\<close> holds \<open>from skbio.aaa.bbb.mod import foo\<close>, the test
  file \<open>skbio/aaa/bbb/tests/test_x.py\<close> holds \<open>from skbio.aaa.bbb import foo\<close>, and
  \<open>skbio/sub/__init__.py\<close>, visited last, holds \<open>from skbio.sub.mod import foo\<close>.
\<close>

definition shortened_later_tree :: tree where
  "shortened_later_tree =
     Dir [(''aaa'',
           Dir [(''bbb'',
                 Dir [(''tests'',
                       Dir [] [(''__init__.py'', py_file []),
                               (''test_x.py'',
                                py_file [ImportFrom (Some ''skbio.aaa.bbb'') [''foo''] 0])])]
                     [(''__init__.py'',
                       py_file [ImportFrom (Some ''skbio.aaa.bbb.mod'') [''foo''] 0])])]
               [(''__init__.py'', py_file [])]),
          (''sub'',
           Dir [] [(''__init__.py'', py_file [ImportFrom (Some ''skbio.sub.mod'') [''foo''] 0])])]
         [(''__init__.py'', py_file [])]"

text \<open>
  The only import of the tree is in \<open>skbio/tests/__init__.py\<close>:
  \<open>from skbio.a.b import foo\<close>.
\<close>

definition test_init_tree :: tree where
  "test_init_tree =
     Dir [(''tests'',
           Dir [] [(''__init__.py'', py_file [ImportFrom (Some ''skbio.a.b'') [''foo''] 0])])]
         [(''__init__.py'', py_file [])]"

section \<open>Relative imports, as the specification words them\<close>

text \<open>
  The module a relative import of the given level names, for a file in the directory
  with the given path components: walk up \<open>level - 1\<close> directories, then append the
  stated module.
\<close>

definition spec_absolute_module :: "string list \<Rightarrow> nat \<Rightarrow> string \<Rightarrow> string" where
  "spec_absolute_module segs level module =
     join_with ''.'' (take (length segs - (level - 1)) segs @ [module])"

section \<open>Properties\<close>

subsection \<open>The core check as a run over the list of directories\<close>

lemma add_import_offer: "add_import package imp R = offer (candidate package imp) R"
  by (simp add: add_import_def offer_def candidate_def Let_def split: option.splits)

lemma add_imports_fold: "add_imports imps package R = fold offer (map (candidate package) imps) R"
  by (induction imps arbitrary: R) (simp_all add: add_import_offer)

lemma dir_candidates_Cons:
  "dir_candidates (root, nf # fs) = file_candidates root nf @ dir_candidates (root, fs)"
  by (simp add: dir_candidates_def)

lemma dir_tests_Cons:
  "dir_tests (root, nf # fs) = file_tests root nf @ dir_tests (root, fs)"
  by (simp add: dir_tests_def)

lemma files_loop_char:
  "files_loop root fs (R, tis) =
     (case dir_error root fs of
        Some e \<Rightarrow> Inl e
      | None \<Rightarrow> Inr (fold offer (dir_candidates (root, fs)) R, tis @ dir_tests (root, fs)))"
proof (induction fs arbitrary: R tis)
  case Nil
  show ?case by (simp add: dir_candidates_def dir_tests_def)
next
  case (Cons nf fs)
  obtain name f where nf: "nf = (name, f)" by (cases nf)
  show ?case
  proof (cases "is_py root name")
    case False
    then have "file_candidates root nf = []" "file_tests root nf = []"
      by (simp_all add: nf file_candidates_def file_tests_def)
    moreover have "dir_error root (nf # fs) = dir_error root fs"
      using False by (simp add: nf)
    moreover have "files_loop root (nf # fs) (R, tis) = files_loop root fs (R, tis)"
      using False by (simp add: nf is_py_def Let_def)
    ultimately show ?thesis using Cons
      by (simp add: dir_candidates_Cons dir_tests_Cons split: option.splits)
  next
    case True
    show ?thesis
    proof (cases "parse_file f root")
      case (Inl e)
      then show ?thesis using True by (simp add: nf is_py_def Let_def)
    next
      case (Inr imps)
      have c: "file_candidates root nf =
                 (if is_init root name then map (candidate (package_of root name)) imps else [])"
        by (simp add: nf file_candidates_def True Inr)
      have t: "file_tests root nf =
                 (if is_tests_dir root then [(os_path_join root name, imps)] else [])"
        by (simp add: nf file_tests_def True Inr)
      have py: "snd (os_path_splitext (os_path_join root name)) = ''.py''"
        using True by (simp add: is_py_def)
      have d: "dir_error root (nf # fs) = dir_error root fs"
        by (simp add: nf True Inr)
      show ?thesis
        unfolding d dir_candidates_Cons dir_tests_Cons c t
        by (simp add: nf py Inr Let_def Cons add_imports_fold is_init_def is_tests_dir_def
            package_of_def split: option.splits)
    qed
  qed
qed

lemma api_dir_char:
  "api_dir R root fs =
     (case dir_error root fs of
        Some e \<Rightarrow> Inl e
      | None \<Rightarrow> Inr (check_loop (registry_after [(root, fs)] R) (dir_tests (root, fs)),
                     registry_after [(root, fs)] R))"
  by (simp add: api_dir_def files_loop_char registry_after_def split: option.splits)

lemma registry_after_Cons:
  "registry_after (d # es) R = registry_after es (registry_after [d] R)"
  by (simp add: registry_after_def)

lemma run_api_char:
  "run_dirs api_dir es (R, acc) =
     (case walk_error es of
        Some e \<Rightarrow> Inl e
      | None \<Rightarrow> Inr (registry_after es R, acc @ violations es R))"
proof (induction es arbitrary: R acc)
  case Nil
  show ?case by (simp add: registry_after_def)
next
  case (Cons d es)
  obtain root fs where d: "d = (root, fs)" by (cases d)
  show ?case
  proof (cases "dir_error root fs")
    case (Some e)
    then have "api_dir R root fs = Inl e" using api_dir_char [of R root fs] by simp
    then show ?thesis using Some by (simp add: d)
  next
    case None
    then have "api_dir R root fs =
        Inr (check_loop (registry_after [(root, fs)] R) (dir_tests (root, fs)),
             registry_after [(root, fs)] R)"
      using api_dir_char [of R root fs] by simp
    then show ?thesis using None
      by (simp add: d Cons registry_after_Cons [of "(root, fs)" es] split: option.splits)
  qed
qed

lemma run_dirs_append:
  "run_dirs step (xs @ ys) sa =
     (case run_dirs step xs sa of Inl e \<Rightarrow> Inl e | Inr sa' \<Rightarrow> run_dirs step ys sa')"
proof (induction xs arbitrary: sa)
  case Nil show ?case by simp
next
  case (Cons d xs)
  obtain root fs where d: "d = (root, fs)" by (cases d)
  obtain s acc where sa: "sa = (s, acc)" by (cases sa)
  show ?case by (simp add: d sa Cons split: sum.splits)
qed

lemma walk_flat_aux:
  "(keeps_dirs v step \<longrightarrow> walk v root t sa = run_dirs step (os_walk root t) sa)"
  "(keeps_dirs v step \<longrightarrow> set (map fst ds) \<subseteq> set dirs' \<longrightarrow>
         walk_dirs v root dirs' ds sa = run_dirs step (os_walk_dirs root ds) sa)"
proof (induction v root t sa and v root dirs' ds sa rule: walk_walk_dirs.induct)
  case (1 v root ds fs s invalids)
  show ?case
  proof
    assume k: "keeps_dirs v step"
    show "walk v root (Dir ds fs) (s, invalids) = run_dirs step (os_walk root (Dir ds fs)) (s, invalids)"
    proof (cases "step s root fs")
      case (Inl e)
      then have "v s root (map fst ds) fs = Inl e" using k by (simp add: keeps_dirs_def)
      then show ?thesis using Inl by simp
    next
      case (Inr r)
      obtain result s' where r: "r = (result, s')" by (cases r)
      have "v s root (map fst ds) fs = Inr (result, map fst ds, s')"
        using k by (simp add: keeps_dirs_def Inr r)
      then show ?thesis using 1 Inr r k by simp
    qed
  qed
next
  case (2 v root dirs' acc)
  show ?case by simp
next
  case (3 v root dirs' name t ds acc)
  then show ?case by (simp add: run_dirs_append split: sum.splits)
qed


lemma keeps_dirs_api: "keeps_dirs APIRegressionValidator_validate api_dir"
  by (auto simp: keeps_dirs_def APIRegressionValidator_validate_def api_dir_def fun_eq_iff
      split: sum.splits)

lemma walk_api:
  "walk APIRegressionValidator_validate root t (R, acc) =
     (case walk_error (os_walk root t) of
        Some e \<Rightarrow> Inl e
      | None \<Rightarrow> Inr (registry_after (os_walk root t) R, acc @ violations (os_walk root t) R))"
  using walk_flat_aux(1) [of APIRegressionValidator_validate api_dir root t "(R, acc)"]
    keeps_dirs_api run_api_char [of "os_walk root t" R acc]
  by simp

lemma validate_api:
  "RepoValidator_validate reason APIRegressionValidator_validate R root t =
     (case walk_error (os_walk root t) of
        Some e \<Rightarrow> Inl e
      | None \<Rightarrow> Inr (report reason (violations (os_walk root t) R),
                     registry_after (os_walk root t) R))"
  by (simp add: RepoValidator_validate_def walk_api report_def split: option.splits)

lemma check_api:
  "APIRegressionValidator_check root t =
     (case walk_error (os_walk root t) of
        Some e \<Rightarrow> Inl e
      | None \<Rightarrow> Inr (report APIRegressionValidator_reason
                       (violations (os_walk root t) Map.empty)))"
  by (simp add: APIRegressionValidator_check_def validate_api split: option.splits)

subsection \<open>Exceptions of the core check\<close>

lemma collect_imports_error:
  "collect_imports root body acc = Inl e \<Longrightarrow> e = TypeError"
  by (induction root body acc rule: collect_imports.induct)
     (auto simp: Let_def split: if_splits option.splits)

lemma collect_imports_no_module:
  "ImportFrom None names level \<in> set body \<Longrightarrow> names \<noteq> []
     \<Longrightarrow> collect_imports root body acc = Inl TypeError"
proof (induction root body acc rule: collect_imports.induct)
  case (3 root module names' level' rest imps)
  show ?case
  proof (cases "names' = []")
    case True
    then show ?thesis using 3 by (auto simp: Let_def)
  next
    case False
    show ?thesis
    proof (cases module)
      case None
      then show ?thesis using False by (simp add: Let_def)
    next
      case (Some m)
      then show ?thesis using False 3 by (auto simp: Let_def)
    qed
  qed
qed auto

lemma parse_file_no_module:
  "parsed f = Module body \<Longrightarrow> ImportFrom None names level \<in> set body \<Longrightarrow> names \<noteq> []
     \<Longrightarrow> parse_file f root = Inl TypeError"
  by (simp add: parse_file_def collect_imports_no_module)

lemma parse_file_malformed: "parsed f = Malformed \<Longrightarrow> parse_file f root = Inl SyntaxError"
  by (simp add: parse_file_def)

lemma dir_error_Some:
  "(name, f) \<in> set fs \<Longrightarrow> is_py root name \<Longrightarrow> parse_file f root = Inl e
     \<Longrightarrow> \<exists>e'. dir_error root fs = Some e'"
  by (induction fs) (auto split: sum.splits)

lemma walk_error_Some:
  "(root, fs) \<in> set es \<Longrightarrow> dir_error root fs = Some e \<Longrightarrow> \<exists>e'. walk_error es = Some e'"
  by (induction es) (auto split: option.splits)

lemma check_api_raises:
  assumes "(r, fs) \<in> set (os_walk root t)" "(name, f) \<in> set fs" "is_py r name"
    "parse_file f r = Inl e"
  shows "\<exists>e'. APIRegressionValidator_check root t = Inl e'"
proof -
  obtain e1 where "dir_error r fs = Some e1" using dir_error_Some assms by blast
  then obtain e2 where "walk_error (os_walk root t) = Some e2"
    using walk_error_Some assms(1) by blast
  then show ?thesis by (simp add: check_api)
qed

lemma main_loop_raises:
  "\<exists>c \<in> set cs. \<exists>e. c root t = Inl e \<Longrightarrow> \<exists>err e. main_loop cs root t (rc, out) = (err, Inl e)"
proof (induction cs arbitrary: rc out)
  case Nil
  then show ?case by simp
next
  case (Cons c cs)
  show ?case
  proof (cases "c root t")
    case (Inl e)
    then show ?thesis by simp
  next
    case (Inr r)
    obtain success msg where r: "r = (success, msg)" by (cases r)
    have "\<exists>c \<in> set cs. \<exists>e. c root t = Inl e" using Cons.prems Inr by auto
    then show ?thesis using Cons.IH Inr r by simp
  qed
qed

lemma main_raises:
  "APIRegressionValidator_check ''skbio'' t = Inl e \<Longrightarrow> \<exists>err e'. main t = (err, Inl e')"
  unfolding main_def by (rule main_loop_raises) (auto simp: validators_def)

text \<open>
  Claim C10. A file with the extension \<open>.py\<close>, in a directory the walk visits, whose top
  level holds a from-import without a module (\<open>from . import name\<close>) makes
  \<open>_parse_file\<close> raise \<open>TypeError\<close>; nothing catches it, so the core check returns no
  report and \<open>main\<close> ends with an exception.
\<close>

theorem module_less_import_raises:
  assumes "(r, fs) \<in> set (os_walk ''skbio'' t)" and "(name, f) \<in> set fs" and "is_py r name"
    and "parsed f = Module body" and "ImportFrom None names level \<in> set body"
    and "names \<noteq> []"
  shows "parse_file f r = Inl TypeError
         \<and> (\<exists>e. APIRegressionValidator_check ''skbio'' t = Inl e)
         \<and> (\<exists>err e. main t = (err, Inl e))"
proof -
  have p: "parse_file f r = Inl TypeError"
    using assms(4-6) by (rule parse_file_no_module)
  obtain e where e: "APIRegressionValidator_check ''skbio'' t = Inl e"
    using check_api_raises [OF assms(1-3) p] by blast
  show ?thesis using p e main_raises [OF e] by blast
qed

theorem module_less_import_raises_witness:
  "parse_file from_dot_file ''skbio'' = Inl TypeError
   \<and> (\<exists>e. APIRegressionValidator_check ''skbio'' (Dir [] [(''util.py'', from_dot_file)]) = Inl e)
   \<and> (\<exists>err e. main (Dir [] [(''util.py'', from_dot_file)]) = (err, Inl e))"
proof -
  have 1: "(''skbio'', [(''util.py'', from_dot_file)])
             \<in> set (os_walk ''skbio'' (Dir [] [(''util.py'', from_dot_file)]))"
    by simp
  have 2: "(''util.py'', from_dot_file) \<in> set [(''util.py'', from_dot_file)]" by simp
  have 3: "is_py ''skbio'' ''util.py''" by code_simp
  have 4: "parsed from_dot_file = Module [ImportFrom None [''name''] 1]"
    by (simp add: from_dot_file_def)
  have 5: "ImportFrom None [''name''] 1 \<in> set [ImportFrom None [''name''] 1]" by simp
  have 6: "[''name''] \<noteq> []" by simp
  show ?thesis using module_less_import_raises [OF 1 2 3 4 5 6] .
qed

text \<open>
  Claim C3 says that a file that does not parse is reported, that the walk goes on and
  that the core check is marked failed. On \<open>broken_tree\<close> the core check returns no
  report at all: the \<open>SyntaxError\<close> of \<open>ast.parse\<close> leaves \<open>validate\<close> and \<open>main\<close>.
\<close>

theorem malformed_file_counterexample:
  "APIRegressionValidator_check ''skbio'' broken_tree = Inl SyntaxError
   \<and> main broken_tree = ([], Inl SyntaxError)"
  by code_simp

text \<open>
  Claim C3, as amended. A file with the extension \<open>.py\<close> that does not parse, in a
  directory the walk visits, makes \<open>_parse_file\<close> raise \<open>SyntaxError\<close>. No handler
  exists: the core check returns no report, the files and directories after it are
  not processed, and \<open>main\<close> ends with an exception instead of a status. The three
  other checks run before the core check.
\<close>

theorem malformed_file_raises:
  assumes "(r, fs) \<in> set (os_walk ''skbio'' t)" and "(name, f) \<in> set fs" and "is_py r name"
    and "parsed f = Malformed"
  shows "parse_file f r = Inl SyntaxError
         \<and> (\<exists>e. APIRegressionValidator_check ''skbio'' t = Inl e)
         \<and> (\<exists>err e. main t = (err, Inl e))"
proof -
  have p: "parse_file f r = Inl SyntaxError"
    using assms(4) by (rule parse_file_malformed)
  obtain e where e: "APIRegressionValidator_check ''skbio'' t = Inl e"
    using check_api_raises [OF assms(1-3) p] by blast
  show ?thesis using p e main_raises [OF e] by blast
qed

theorem malformed_file_raises_witness:
  "parse_file malformed_file ''skbio'' = Inl SyntaxError
   \<and> (\<exists>e. APIRegressionValidator_check ''skbio'' broken_tree = Inl e)
   \<and> (\<exists>err e. main broken_tree = (err, Inl e))"
proof -
  have 1: "(''skbio'', [(''__init__.py'', py_file []), (''broken.py'', malformed_file),
             (''util.py'', py_file [Import [''skbio.util'']])])
             \<in> set (os_walk ''skbio'' broken_tree)"
    by (simp add: broken_tree_def)
  have 2: "(''broken.py'', malformed_file) \<in> set [(''__init__.py'', py_file []),
             (''broken.py'', malformed_file), (''util.py'', py_file [Import [''skbio.util'']])]"
    by simp
  have 3: "is_py ''skbio'' ''broken.py''" by code_simp
  have 4: "parsed malformed_file = Malformed" by (simp add: malformed_file_def)
  show ?thesis using malformed_file_raises [OF 1 2 3 4] .
qed

subsection \<open>A test import shorter than the stored path\<close>

text \<open>
  Claim C4 at a failing input. The registry holds \<open>skbio.a.foo\<close> for \<open>foo\<close>, all init
  files have been added, and the test imports \<open>skbio.foo\<close>, which has fewer segments.
  \<open>_minimal_import\<close> compares the two lengths with \<open>==\<close> only, so the test is flagged
  and told to use the longer path.
\<close>

theorem shorter_test_import_flagged:
  "nsegs ''skbio.foo'' < nsegs ''skbio.a.foo''
   \<and> minimal_import [''foo'' \<mapsto> ''skbio.a.foo''] ''skbio.foo'' = Some ''skbio.a.foo''
   \<and> APIRegressionValidator_check ''skbio'' shorter_test_tree =
       Inr (False, [APIRegressionValidator_reason @ '':'',
                    ''    skbio/a/tests/test_foo.py: skbio.foo => skbio.a.foo''])"
  by code_simp

subsection \<open>Trees without files\<close>

text \<open>
  Claim C8 says that every check succeeds on an empty tree. The init check flags the
  empty root directory itself.
\<close>

theorem empty_tree_counterexample:
  "InitValidator_check ''skbio'' (Dir [] []) =
     Inr (False, [''Directories missing init files:'', ''    skbio''])
   \<and> snd (main (Dir [] [])) = Inr 1"
  by code_simp

lemma walk_no_files:
  "(\<forall>s root dirs. \<exists>dirs'. v s root dirs [] = Inr ([], dirs', s)) \<longrightarrow> no_files t
     \<longrightarrow> walk v root t sa = Inr sa"
  "(\<forall>s root dirs. \<exists>dirs'. v s root dirs [] = Inr ([], dirs', s)) \<longrightarrow> no_files_list ds
     \<longrightarrow> walk_dirs v root dirs' ds sa = Inr sa"
proof (induction v root t sa and v root dirs' ds sa rule: walk_walk_dirs.induct)
  case (1 v root ds fs s invalids)
  show ?case
  proof (intro impI)
    assume q: "\<forall>s root dirs. \<exists>dirs'. v s root dirs [] = Inr ([], dirs', s)"
      and n: "no_files (Dir ds fs)"
    then obtain dirs' where d: "v s root (map fst ds) [] = Inr ([], dirs', s)" by blast
    have fs: "fs = []" and nl: "no_files_list ds" using n by simp_all
    show "walk v root (Dir ds fs) (s, invalids) = Inr (s, invalids)"
      using 1 [of "([], dirs', s)" "[]" "(dirs', s)" dirs' s] d q nl by (simp add: fs)
  qed
next
  case (2 v root dirs' acc)
  show ?case by simp
next
  case (3 v root dirs' name t ds acc)
  then show ?case by simp
qed

lemma walk_init:
  "\<exists>rest. walk (InitValidator_validate sk) root t (s, acc) = Inr ((), acc @ rest)"
  "\<exists>rest. walk_dirs (InitValidator_validate sk) root dirs' ds (s, acc) = Inr ((), acc @ rest)"
proof (induction "InitValidator_validate sk" root t "(s, acc)"
    and "InitValidator_validate sk" root dirs' ds "(s, acc)"
    arbitrary: s acc and s acc rule: walk_walk_dirs.induct)
  case (1 root ds fs s invalids)
  define x where "x = (if ''__init__.py'' \<notin> set (map fst fs) then [root] else [])"
  define dirs' where "dirs' = fold (\<lambda>skip_dir ds. if skip_dir \<in> set ds
      then remove1 skip_dir ds else ds) sk (map fst ds)"
  have v: "InitValidator_validate sk s root (map fst ds) fs = Inr (x, dirs', s)"
    by (simp add: InitValidator_validate_def x_def dirs'_def)
  obtain rest where "walk_dirs (InitValidator_validate sk) root dirs' ds (s, invalids @ x)
      = Inr ((), (invalids @ x) @ rest)"
    using 1 [OF v refl refl] by blast
  then have "walk (InitValidator_validate sk) root (Dir ds fs) (s, invalids)
      = Inr ((), invalids @ (x @ rest))"
    using v by simp
  then show ?case by blast
next
  case (2 root dirs' s acc)
  show ?case by simp
next
  case (3 root dirs' name t ds s acc)
  show ?case
  proof (cases "name \<in> set dirs'")
    case False
    then show ?thesis using 3(3) by simp
  next
    case True
    obtain r1 where r1: "walk (InitValidator_validate sk) (os_path_join root name) t (s, acc)
        = Inr ((), acc @ r1)"
      using 3(1) [OF True] by blast
    obtain r2 where "walk_dirs (InitValidator_validate sk) root dirs' ds ((), acc @ r1)
        = Inr ((), (acc @ r1) @ r2)"
      using 3(2) [OF True r1] by blast
    then show ?thesis using True r1 by simp
  qed
qed


lemma exec_quiet: "ExecPermissionValidator_validate exts s root dirs [] = Inr ([], dirs, s)"
  by (simp add: ExecPermissionValidator_validate_def)

lemma cython_quiet: "GeneratedCythonValidator_validate a b s root dirs [] = Inr ([], dirs, s)"
  by (simp add: GeneratedCythonValidator_validate_def ext_to_base_def)

lemma api_quiet: "APIRegressionValidator_validate R root dirs [] = Inr ([], dirs, R)"
  by (simp add: APIRegressionValidator_validate_def check_loop_def)

lemma validate_no_files:
  assumes "\<And>s root dirs. v s root dirs [] = Inr ([], dirs, s)" and "no_files t"
  shows "RepoValidator_validate reason v s root t = Inr ((True, []), s)"
proof -
  have "\<forall>s root dirs. \<exists>dirs'. v s root dirs [] = Inr ([], dirs', s)"
    using assms(1) by blast
  then have "walk v root t (s, []) = Inr (s, [])"
    using walk_no_files(1) [of v t root "(s, [])"] assms(2) by blast
  then show ?thesis by (simp add: RepoValidator_validate_def)
qed

lemma init_check_no_init:
  "\<exists>rest. InitValidator_check root (Dir ds []) =
      Inr (False, (InitValidator_reason @ '':'') # (''    '' @ root) # rest)"
proof -
  define sk where "sk = InitValidator_skip_dirs"
  define dirs' where "dirs' = fold (\<lambda>skip_dir ds. if skip_dir \<in> set ds
      then remove1 skip_dir ds else ds) sk (map fst ds)"
  have v: "InitValidator_validate sk () root (map fst ds) [] = Inr ([root], dirs', ())"
    by (simp add: InitValidator_validate_def dirs'_def)
  obtain rest where "walk_dirs (InitValidator_validate sk) root dirs' ds ((), [] @ [root])
      = Inr ((), ([] @ [root]) @ rest)"
    using walk_init(2) [of sk root dirs' ds "()" "[] @ [root]"] by blast
  then have "walk (InitValidator_validate sk) root (Dir ds []) ((), []) = Inr ((), root # rest)"
    using v by simp
  then show ?thesis
    by (simp add: InitValidator_check_def RepoValidator_validate_def sk_def)
qed

text \<open>
  Claim C8, as amended. On a tree without files the execute-permission check, the
  generated-Cython check and the core check succeed with an empty report. The init
  check flags the root directory, which has no \<open>__init__.py\<close>, and fails; \<open>main\<close>
  returns 1.
\<close>

theorem file_free_tree_checks:
  assumes "no_files t"
  shows "ExecPermissionValidator_check ''skbio'' t = Inr (True, [])
         \<and> GeneratedCythonValidator_check ''skbio'' t = Inr (True, [])
         \<and> APIRegressionValidator_check ''skbio'' t = Inr (True, [])
         \<and> (\<exists>rest. InitValidator_check ''skbio'' t =
               Inr (False, (InitValidator_reason @ '':'') # ''    skbio'' # rest))
         \<and> snd (main t) = Inr 1"
proof -
  have e: "ExecPermissionValidator_check ''skbio'' t = Inr (True, [])"
    using validate_no_files [of "ExecPermissionValidator_validate ExecPermissionValidator_extensions" t]
      exec_quiet assms
    by (simp add: ExecPermissionValidator_check_def)
  have c: "GeneratedCythonValidator_check ''skbio'' t = Inr (True, [])"
    using validate_no_files [of "GeneratedCythonValidator_validate ''.pyx'' ''.c''" t]
      cython_quiet assms
    by (simp add: GeneratedCythonValidator_check_def)
  have a: "APIRegressionValidator_check ''skbio'' t = Inr (True, [])"
    using validate_no_files [of APIRegressionValidator_validate t] api_quiet assms
    by (simp add: APIRegressionValidator_check_def)
  obtain ds where t: "t = Dir ds []" using assms by (cases t) simp
  obtain rest where i: "InitValidator_check ''skbio'' t =
      Inr (False, (InitValidator_reason @ '':'') # (''    '' @ ''skbio'') # rest)"
    using init_check_no_init [of "''skbio''" ds] t by blast
  have m: "snd (main t) = Inr 1"
    by (simp add: main_def validators_def e c a i)
  show ?thesis using e c a i m by simp
qed

theorem file_free_tree_checks_witness:
  "ExecPermissionValidator_check ''skbio'' (Dir [(''docs'', Dir [] [])] []) = Inr (True, [])
   \<and> GeneratedCythonValidator_check ''skbio'' (Dir [(''docs'', Dir [] [])] []) = Inr (True, [])
   \<and> APIRegressionValidator_check ''skbio'' (Dir [(''docs'', Dir [] [])] []) = Inr (True, [])
   \<and> (\<exists>rest. InitValidator_check ''skbio'' (Dir [(''docs'', Dir [] [])] []) =
         Inr (False, (InitValidator_reason @ '':'') # ''    skbio'' # rest))
   \<and> snd (main (Dir [(''docs'', Dir [] [])] [])) = Inr 1"
proof -
  have h: "no_files (Dir [(''docs'', Dir [] [])] [])" by simp
  show ?thesis using file_free_tree_checks [OF h] .
qed


subsection \<open>The registry and the flagged lines\<close>

lemma main_loop_returns:
  "\<forall>c \<in> set cs. \<exists>r. c root t = Inr r \<Longrightarrow>
     snd (main_loop cs root t (rc, out)) =
       Inr (if \<forall>c \<in> set cs. \<exists>m. c root t = Inr (True, m) then rc else 1)"
proof (induction cs arbitrary: rc out)
  case Nil
  show ?case by simp
next
  case (Cons c cs)
  obtain success msg where r: "c root t = Inr (success, msg)"
    using Cons.prems by fastforce
  have rest: "\<forall>c \<in> set cs. \<exists>r. c root t = Inr r" using Cons.prems by simp
  show ?case
  proof (cases success)
    case True
    then show ?thesis using r Cons.IH [OF rest] by simp
  next
    case False
    then show ?thesis using r Cons.IH [OF rest] by simp
  qed
qed

lemma check_loop_lines:
  "item \<in> set (check_loop R tis) \<Longrightarrow>
     \<exists>fp imps imp sub. (fp, imps) \<in> set tis \<and> imp \<in> set imps
        \<and> minimal_import R imp = Some sub
        \<and> item = fp @ '': '' @ imp @ '' => '' @ sub"
  by (fastforce simp: check_loop_def check_file_def split: option.splits)

lemma dir_tests_mem:
  "(fp, imps) \<in> set (dir_tests (r, fs)) \<Longrightarrow>
     \<exists>name f. (name, f) \<in> set fs \<and> is_py r name \<and> is_tests_dir r
        \<and> parse_file f r = Inr imps \<and> fp = os_path_join r name"
  by (fastforce simp: dir_tests_def file_tests_def split: if_splits sum.splits)

lemma offer_absorbs: "absorbs (offer c R) c"
  by (simp add: absorbs_def offer_def split: option.splits)

lemma offer_keeps: "absorbs R c \<Longrightarrow> absorbs (offer c' R) c"
  by (auto simp: absorbs_def offer_def split: option.splits)

lemma offer_id: "absorbs R c \<Longrightarrow> offer c R = R"
  by (auto simp: absorbs_def offer_def split: option.splits)

lemma fold_offer_keeps: "absorbs R c \<Longrightarrow> absorbs (fold offer cs R) c"
  by (induction cs arbitrary: R) (simp_all add: offer_keeps)

lemma fold_offer_absorbs: "c \<in> set cs \<Longrightarrow> absorbs (fold offer cs R) c"
  by (induction cs arbitrary: R) (auto simp: offer_absorbs fold_offer_keeps)

lemma fold_offer_id: "\<forall>c \<in> set cs. absorbs R c \<Longrightarrow> fold offer cs R = R"
  by (induction cs) (simp_all add: offer_id)

lemma offer_source: "offer c R k = Some v \<Longrightarrow> R k = Some v \<or> c = (k, v)"
  by (cases c) (auto simp: offer_def split: option.splits if_splits)

lemma fold_offer_source:
  "fold offer cs R k = Some v \<Longrightarrow> R k = Some v \<or> (k, v) \<in> set cs"
proof (induction cs arbitrary: R)
  case Nil
  then show ?case by simp
next
  case (Cons c cs)
  then have "offer c R k = Some v \<or> (k, v) \<in> set cs" by simp
  then show ?case using offer_source [of c R k v] by auto
qed

lemma offer_none: "(offer c R k = None) = (R k = None \<and> fst c \<noteq> k)"
  by (auto simp: offer_def split: option.splits if_splits)

lemma fold_offer_none:
  "(fold offer cs R k = None) = (R k = None \<and> k \<notin> fst ` set cs)"
  by (induction cs arbitrary: R) (auto simp: offer_none)

lemma fold_offer_minimal:
  assumes "fold offer cs R k = Some v" and "(k, v') \<in> set cs"
  shows "nsegs v \<le> nsegs v'"
  using fold_offer_absorbs [OF assms(2), of R] assms(1) by (simp add: absorbs_def)

lemma registry_after_append:
  "registry_after (xs @ ys) R = registry_after ys (registry_after xs R)"
  by (simp add: registry_after_def)

lemma registry_after_idem:
  "registry_after es (registry_after es R) = registry_after es R"
  unfolding registry_after_def
  by (rule fold_offer_id) (simp add: fold_offer_absorbs)

lemma registry_after_part:
  assumes "d \<in> set es"
  shows "registry_after [d] (registry_after es R) = registry_after es R"
proof -
  have "\<forall>c \<in> set (dir_candidates d). absorbs (registry_after es R) c"
    using assms by (auto simp: registry_after_def intro!: fold_offer_absorbs)
  then show ?thesis by (simp add: registry_after_def fold_offer_id)
qed

lemma violations_stable:
  "\<forall>d \<in> set es. registry_after [d] R = R \<Longrightarrow>
     violations es R = check_loop R (concat (map dir_tests es))"
  by (induction es) (simp_all add: check_loop_def)

lemma violations_second_run:
  "violations es (registry_after es R) =
     check_loop (registry_after es R) (concat (map dir_tests es))"
  by (rule violations_stable) (simp add: registry_after_part)

lemma dir_candidates_mem:
  "c \<in> set (dir_candidates (r, fs)) \<Longrightarrow>
     \<exists>name f imps imp. (name, f) \<in> set fs \<and> is_py r name \<and> is_init r name
        \<and> parse_file f r = Inr imps \<and> imp \<in> set imps
        \<and> c = candidate (package_of r name) imp"
proof -
  assume "c \<in> set (dir_candidates (r, fs))"
  then have "\<exists>nf \<in> set fs. c \<in> set (file_candidates r nf)"
    by (simp add: dir_candidates_def)
  then obtain nf where nf: "nf \<in> set fs" "c \<in> set (file_candidates r nf)"
    by blast
  obtain name f where p: "nf = (name, f)" by (cases nf)
  have fc: "c \<in> set (file_candidates r (name, f))" using nf(2) p by simp
  have py: "is_py r name \<and> is_init r name"
  proof (rule ccontr)
    assume "\<not> (is_py r name \<and> is_init r name)"
    then have "file_candidates r (name, f) = []" by (auto simp: file_candidates_def)
    then show False using fc by simp
  qed
  obtain imps where imps: "parse_file f r = Inr imps"
    "c \<in> set (map (candidate (package_of r name)) imps)"
  proof (cases "parse_file f r")
    case (Inl e)
    then have "file_candidates r (name, f) = []" by (simp add: file_candidates_def)
    then show ?thesis using fc by simp
  next
    case (Inr imps)
    then have "file_candidates r (name, f) = map (candidate (package_of r name)) imps"
      using py by (simp add: file_candidates_def)
    then show ?thesis using fc Inr that by simp
  qed
  then obtain imp where "imp \<in> set imps" "c = candidate (package_of r name) imp"
    by auto
  then show ?thesis using nf(1) p py imps(1) by blast
qed

lemma registry_after_Nil: "registry_after [] R = R"
  by (simp add: registry_after_def)

lemma violations_prefix:
  "violations es R =
     concat (map (\<lambda>i. check_loop (registry_after (take (Suc i) es) R) (dir_tests (es ! i)))
                 [0..<length es])"
proof (induction es arbitrary: R)
  case Nil
  show ?case by simp
next
  case (Cons d es)
  have "[0..<length (d # es)] = 0 # map Suc [0..<length es]"
    by (simp add: upt_conv_Cons map_Suc_upt del: upt_Suc)
  then show ?case
    by (simp add: Cons registry_after_Cons [of d "take _ es"] registry_after_Nil comp_def
        del: upt_Suc)
qed


lemma minimal_import_Some:
  "(minimal_import R imp = Some sub) = (R (last_seg imp) = Some sub \<and> nsegs sub \<noteq> nsegs imp)"
  by (auto simp: minimal_import_def Let_def split: option.splits)

lemma registry_after_source:
  "registry_after es R k = Some v \<Longrightarrow>
     R k = Some v \<or> (k, v) \<in> set (concat (map dir_candidates es))"
  unfolding registry_after_def by (rule fold_offer_source)

lemma violations_lines:
  "item \<in> set (violations es R) \<Longrightarrow>
     \<exists>r fs name f imps imp sub. (r, fs) \<in> set es \<and> (name, f) \<in> set fs \<and> is_py r name
        \<and> is_tests_dir r \<and> parse_file f r = Inr imps \<and> imp \<in> set imps
        \<and> nsegs sub \<noteq> nsegs imp
        \<and> (R (last_seg imp) = Some sub
             \<or> (last_seg imp, sub) \<in> set (concat (map dir_candidates es)))
        \<and> item = os_path_join r name @ '': '' @ imp @ '' => '' @ sub"
proof (induction es arbitrary: R)
  case Nil
  then show ?case by simp
next
  case (Cons d es)
  obtain r fs where d: "d = (r, fs)" by (cases d)
  from Cons.prems consider
    (here) "item \<in> set (check_loop (registry_after [d] R) (dir_tests d))"
    | (later) "item \<in> set (violations es (registry_after [d] R))"
    by auto
  then show ?case
  proof cases
    case here
    then obtain fp imps imp sub where 1: "(fp, imps) \<in> set (dir_tests (r, fs))"
      "imp \<in> set imps" "minimal_import (registry_after [d] R) imp = Some sub"
      "item = fp @ '': '' @ imp @ '' => '' @ sub"
      using check_loop_lines d by blast
    then obtain name f where 2: "(name, f) \<in> set fs" "is_py r name" "is_tests_dir r"
      "parse_file f r = Inr imps" "fp = os_path_join r name"
      using dir_tests_mem by blast
    have 3: "registry_after [d] R (last_seg imp) = Some sub" "nsegs sub \<noteq> nsegs imp"
      using 1(3) by (simp_all add: minimal_import_Some)
    have "R (last_seg imp) = Some sub \<or> (last_seg imp, sub) \<in> set (dir_candidates d)"
      using registry_after_source [OF 3(1)] by simp
    then have 4: "R (last_seg imp) = Some sub
        \<or> (last_seg imp, sub) \<in> set (concat (map dir_candidates (d # es)))"
      by auto
    have "(r, fs) \<in> set (d # es)" by (simp add: d)
    then show ?thesis using 1(2,4) 2 3(2) 4 by blast
  next
    case later
    then obtain r' fs' name f imps imp sub where 3: "(r', fs') \<in> set es"
      "(name, f) \<in> set fs'" "is_py r' name" "is_tests_dir r'" "parse_file f r' = Inr imps"
      "imp \<in> set imps" "nsegs sub \<noteq> nsegs imp"
      "registry_after [d] R (last_seg imp) = Some sub
         \<or> (last_seg imp, sub) \<in> set (concat (map dir_candidates es))"
      "item = os_path_join r' name @ '': '' @ imp @ '' => '' @ sub"
      using Cons.IH [of "registry_after [d] R"] by blast
    have "registry_after [d] R (last_seg imp) = Some sub \<Longrightarrow>
        R (last_seg imp) = Some sub \<or> (last_seg imp, sub) \<in> set (dir_candidates d)"
      using registry_after_source [of "[d]" R "last_seg imp" sub] by simp
    then have 4: "R (last_seg imp) = Some sub
        \<or> (last_seg imp, sub) \<in> set (concat (map dir_candidates (d # es)))"
      using 3(8) by auto
    have "(r', fs') \<in> set (d # es)" using 3(1) by simp
    then show ?thesis using 3(2-7,9) 4 by blast
  qed
qed

lemma check_api_Inr:
  assumes "APIRegressionValidator_check root t = Inr r"
  shows "walk_error (os_walk root t) = None"
    and "r = report APIRegressionValidator_reason (violations (os_walk root t) Map.empty)"
  using assms by (simp_all add: check_api split: option.splits)

subsection \<open>One pass, not two\<close>

text \<open>
  Claim C1 says that the whole tree is added to the registry before any test file is
  checked. On \<open>shortened_later_tree\<close> the test file is checked while the registry
  holds \<open>skbio.aaa.bbb.foo\<close> for \<open>foo\<close>, a path as long as the one the test uses, and is
  not flagged; \<open>skbio/sub/__init__.py\<close>, visited later, shortens the entry to
  \<open>skbio.sub.foo\<close>. Two passes would flag the test.
\<close>

theorem interleaved_check_counterexample:
  "APIRegressionValidator_check ''skbio'' shortened_later_tree = Inr (True, [])
   \<and> two_pass_validate ''skbio'' shortened_later_tree =
       Inr (False, [APIRegressionValidator_reason @ '':'',
                    ''    skbio/aaa/bbb/tests/test_x.py: skbio.aaa.bbb.foo => skbio.sub.foo''])
   \<and> imports_after ''skbio'' shortened_later_tree ''foo'' = Inr (Some ''skbio.sub.foo'')"
  by code_simp

text \<open>
  Claim C1, as amended. The core check has one pass: \<open>_validate\<close> is called once for
  each directory of the walk, adds the imports of that directory's init files to the
  registry and then checks the test files of the same directory. So the test files
  of a directory are checked against the registry built from the directories visited
  so far, that directory included; directories visited later can still shorten an
  entry afterwards.
\<close>

theorem check_uses_registry_so_far:
  assumes "APIRegressionValidator_check root t = Inr r"
  shows "r = report APIRegressionValidator_reason
               (concat (map (\<lambda>i. check_loop
                                    (registry_after (take (Suc i) (os_walk root t)) Map.empty)
                                    (dir_tests (os_walk root t ! i)))
                            [0..<length (os_walk root t)]))"
  using check_api_Inr(2) [OF assms] violations_prefix [of "os_walk root t" Map.empty]
  by simp

theorem check_uses_registry_so_far_witness:
  "(False, [APIRegressionValidator_reason @ '':'',
            ''    skbio/sub/tests/test_mod.py: skbio.sub.mod.foo => skbio.sub.foo'']) =
     report APIRegressionValidator_reason
       (concat (map (\<lambda>i. check_loop
                            (registry_after (take (Suc i) (os_walk ''skbio'' scenario_tree))
                               Map.empty)
                            (dir_tests (os_walk ''skbio'' scenario_tree ! i)))
                    [0..<length (os_walk ''skbio'' scenario_tree)]))"
proof -
  have h: "APIRegressionValidator_check ''skbio'' scenario_tree =
      Inr (False, [APIRegressionValidator_reason @ '':'',
                   ''    skbio/sub/tests/test_mod.py: skbio.sub.mod.foo => skbio.sub.foo''])"
    by code_simp
  show ?thesis using check_uses_registry_so_far [OF h] .
qed

subsection \<open>Which files contribute to the registry\<close>

lemma split_on_nonempty: "split_on c xs \<noteq> []"
  by (induction xs) (auto split: list.splits)

lemma split_on_free: "c \<notin> set xs \<Longrightarrow> split_on c xs = [xs]"
  by (induction xs) auto

lemma split_on_sep:
  "split_on c (xs @ c # ys) = split_on c xs @ split_on c ys"
proof (induction xs)
  case Nil
  show ?case by simp
next
  case (Cons x xs)
  show ?case
  proof (cases "x = c")
    case True
    then show ?thesis using Cons by simp
  next
    case False
    obtain w ws where w: "split_on c xs = w # ws"
      using split_on_nonempty [of c xs] by (cases "split_on c xs") auto
    show ?thesis using False Cons w by simp
  qed
qed

lemma last_split_on:
  assumes "c \<notin> set ys" and "P = [] \<or> last P = c"
  shows "last (split_on c (P @ ys)) = ys"
proof (cases "P = []")
  case True
  then show ?thesis using assms(1) by (simp add: split_on_free)
next
  case False
  then have P: "P = butlast P @ [c]" using assms(2) by (metis append_butlast_last_id)
  have "split_on c (P @ ys) = split_on c (butlast P) @ split_on c ys"
    using split_on_sep [of c "butlast P" ys] P by (metis append.assoc append_Cons append_Nil)
  then show ?thesis using assms(1) by (simp add: split_on_free)
qed

lemma os_path_join_form:
  assumes "os_sep \<notin> set name"
  shows "\<exists>P. os_path_join root name = P @ name \<and> (P = [] \<or> last P = os_sep)"
proof -
  have h: "\<not> (name \<noteq> [] \<and> hd name = os_sep)"
    using assms by (cases name) auto
  show ?thesis
  proof (cases "root = [] \<or> last root = os_sep")
    case True
    then have "os_path_join root name = root @ name" using h by (auto simp: os_path_join_def)
    then show ?thesis using True by blast
  next
    case False
    then have "os_path_join root name = (root @ [os_sep]) @ name"
      using h by (auto simp: os_path_join_def)
    moreover have "last (root @ [os_sep]) = os_sep" by simp
    ultimately show ?thesis by blast
  qed
qed

lemma takeWhile_upto:
  "c \<notin> set xs \<Longrightarrow> takeWhile (\<lambda>x. x \<noteq> c) (xs @ c # ys) = xs"
  "c \<notin> set xs \<Longrightarrow> takeWhile (\<lambda>x. x \<noteq> c) xs = xs"
  by (induction xs) auto

lemma dropWhile_upto:
  "c \<notin> set xs \<Longrightarrow> dropWhile (\<lambda>x. x \<noteq> c) (xs @ c # ys) = c # ys"
  "c \<notin> set xs \<Longrightarrow> dropWhile (\<lambda>x. x \<noteq> c) xs = []"
  by (induction xs) auto

lemma rev_split_base:
  assumes "os_sep \<notin> set name" and "P = [] \<or> last P = os_sep"
  shows "rev (takeWhile (\<lambda>c. c \<noteq> os_sep) (rev (P @ name))) = name
         \<and> rev (dropWhile (\<lambda>c. c \<noteq> os_sep) (rev (P @ name))) = P"
proof (cases "P = []")
  case True
  then show ?thesis using assms(1) by (simp add: takeWhile_upto dropWhile_upto)
next
  case False
  then have P: "P = butlast P @ [os_sep]" using assms(2) by (metis append_butlast_last_id)
  have r: "rev (P @ name) = rev name @ os_sep # rev (butlast P)"
    using P by (metis rev.simps(2) rev_append rev_rev_ident rev_swap)
  have n: "os_sep \<notin> set (rev name)" using assms(1) by simp
  show ?thesis
    unfolding r takeWhile_upto(1) [OF n] dropWhile_upto(1) [OF n] using P by simp
qed


lemma stem_ext:
  assumes "c \<in> set name"
  shows "name = rev (tl (dropWhile (\<lambda>x. x \<noteq> c) (rev name)))
                 @ c # rev (takeWhile (\<lambda>x. x \<noteq> c) (rev name))"
proof -
  let ?tw = "takeWhile (\<lambda>x. x \<noteq> c) (rev name)"
  let ?dw = "dropWhile (\<lambda>x. x \<noteq> c) (rev name)"
  have ne: "?dw \<noteq> []" using assms by (simp add: dropWhile_eq_Nil_conv)
  then have "hd ?dw = c" using hd_dropWhile [of "\<lambda>x. x \<noteq> c" "rev name"] by simp
  then have dw: "?dw = c # tl ?dw" using ne by (cases ?dw) auto
  have "rev name = ?tw @ ?dw" by simp
  then have "rev name = ?tw @ c # tl ?dw" using dw by simp
  then have "rev (rev name) = rev (?tw @ c # tl ?dw)" by (rule arg_cong)
  then show ?thesis by simp
qed

lemma splitext_join:
  assumes "os_sep \<notin> set name" and "os_path_join root name = P @ name"
    and "P = [] \<or> last P = os_sep"
  shows "CHR ''.'' \<in> set name
         \<and> (\<exists>c \<in> set (rev (tl (dropWhile (\<lambda>c. c \<noteq> CHR ''.'') (rev name)))). c \<noteq> CHR ''.'')
         \<Longrightarrow> os_path_splitext (os_path_join root name) =
             (P @ rev (tl (dropWhile (\<lambda>c. c \<noteq> CHR ''.'') (rev name))),
              CHR ''.'' # rev (takeWhile (\<lambda>c. c \<noteq> CHR ''.'') (rev name)))"
    and "\<not> (CHR ''.'' \<in> set name
         \<and> (\<exists>c \<in> set (rev (tl (dropWhile (\<lambda>c. c \<noteq> CHR ''.'') (rev name)))). c \<noteq> CHR ''.''))
         \<Longrightarrow> os_path_splitext (os_path_join root name) = (P @ name, [])"
proof -
  have b: "rev (takeWhile (\<lambda>c. c \<noteq> os_sep) (rev (P @ name))) = name"
    and d: "rev (dropWhile (\<lambda>c. c \<noteq> os_sep) (rev (P @ name))) = P"
    using rev_split_base [OF assms(1,3)] by simp_all
  have e: "os_path_splitext (P @ name) =
     (if CHR ''.'' \<in> set name then
        (if \<exists>c \<in> set (rev (tl (dropWhile (\<lambda>c. c \<noteq> CHR ''.'') (rev name)))). c \<noteq> CHR ''.''
         then (P @ rev (tl (dropWhile (\<lambda>c. c \<noteq> CHR ''.'') (rev name))),
               CHR ''.'' # rev (takeWhile (\<lambda>c. c \<noteq> CHR ''.'') (rev name)))
         else (P @ name, []))
      else (P @ name, []))"
    unfolding os_path_splitext_def Let_def b d ..
  show "CHR ''.'' \<in> set name
         \<and> (\<exists>c \<in> set (rev (tl (dropWhile (\<lambda>c. c \<noteq> CHR ''.'') (rev name)))). c \<noteq> CHR ''.'')
         \<Longrightarrow> os_path_splitext (os_path_join root name) =
             (P @ rev (tl (dropWhile (\<lambda>c. c \<noteq> CHR ''.'') (rev name))),
              CHR ''.'' # rev (takeWhile (\<lambda>c. c \<noteq> CHR ''.'') (rev name)))"
    unfolding assms(2) e by (simp only: if_True simp_thms)
  show "\<not> (CHR ''.'' \<in> set name
         \<and> (\<exists>c \<in> set (rev (tl (dropWhile (\<lambda>c. c \<noteq> CHR ''.'') (rev name)))). c \<noteq> CHR ''.''))
         \<Longrightarrow> os_path_splitext (os_path_join root name) = (P @ name, [])"
    unfolding assms(2) e by (cases "CHR ''.'' \<in> set name") (simp_all only: if_True if_False simp_thms)
qed

text \<open>
  For a file name without a slash, the two tests of \<open>_validate\<close> that lead to
  \<open>_add_imports\<close> hold exactly for the name \<open>__init__.py\<close>.
\<close>

lemma init_file_name:
  assumes "os_sep \<notin> set name"
  shows "(is_py root name \<and> is_init root name) = (name = ''__init__.py'')"
proof -
  obtain P where P: "os_path_join root name = P @ name" "P = [] \<or> last P = os_sep"
    using os_path_join_form [OF assms] by blast
  let ?stem = "rev (tl (dropWhile (\<lambda>c. c \<noteq> CHR ''.'') (rev name)))"
  let ?ext = "CHR ''.'' # rev (takeWhile (\<lambda>c. c \<noteq> CHR ''.'') (rev name))"
  let ?c = "CHR ''.'' \<in> set name \<and> (\<exists>c \<in> set ?stem. c \<noteq> CHR ''.'')"
  note yes = splitext_join(1) [OF assms P]
  note no = splitext_join(2) [OF assms P]
  show ?thesis
  proof
    assume a: "is_py root name \<and> is_init root name"
    have c: ?c
    proof (rule ccontr)
      assume "\<not> ?c"
      then have "os_path_splitext (os_path_join root name) = (P @ name, [])" by (rule no)
      then show False using a by (simp add: is_py_def)
    qed
    then have s: "os_path_splitext (os_path_join root name) = (P @ ?stem, ?ext)" by (rule yes)
    have ext: "?ext = ''.py''" using a unfolding is_py_def s by simp
    have d: "CHR ''.'' \<in> set name" using c by blast
    have name: "name = ?stem @ ?ext" using d by (rule stem_ext)
    have "set ?stem \<subseteq> set (?stem @ ?ext)" by (simp only: set_append Un_upper1)
    then have "set ?stem \<subseteq> set name" using name by simp
    then have free: "os_sep \<notin> set ?stem" using assms by blast
    have "last (split_on os_sep (P @ ?stem)) = ''__init__''"
      using a unfolding is_init_def s by simp
    then have stem: "?stem = ''__init__''" using last_split_on [OF free P(2)] by simp
    have "?stem @ ?ext = ''__init__.py''" unfolding stem ext by simp
    then show "name = ''__init__.py''" using name by simp
  next
    assume n: "name = ''__init__.py''"
    have st: "?stem = ''__init__''" unfolding n by simp
    have ex: "?ext = ''.py''" unfolding n by simp
    have c: ?c unfolding st unfolding n by simp
    then have "os_path_splitext (os_path_join root name) = (P @ ?stem, ?ext)" by (rule yes)
    then have s: "os_path_splitext (os_path_join root name) = (P @ ''__init__'', ''.py'')"
      unfolding st ex .
    have free: "os_sep \<notin> set ''__init__''" by (simp add: os_sep_def)
    have "last (split_on os_sep (P @ ''__init__'')) = ''__init__''"
      using last_split_on [OF free P(2)] .
    then show "is_py root name \<and> is_init root name"
      unfolding is_py_def is_init_def s by simp
  qed
qed

text \<open>
  Claim C2 says that only non-test files contribute to the registry. On
  \<open>test_init_tree\<close> the registry ends with an entry for \<open>foo\<close> that comes from the init
  file of the directory \<open>skbio/tests\<close>; the only other file of the tree offers
  nothing.
\<close>

theorem test_init_contributes_counterexample:
  "imports_after ''skbio'' test_init_tree ''foo'' = Inr (Some ''skbio.tests.foo'')
   \<and> is_tests_dir ''skbio/tests''
   \<and> dir_candidates (''skbio'', [(''__init__.py'', py_file [])]) = []"
  by code_simp

text \<open>
  Claim C2, as amended. When the walk completes, the registry has an entry exactly
  for the symbols for which some init file of the walk, in a test directory or not,
  offers a candidate; the stored path is one of these candidates, and none of them
  has fewer segments. Files other than init files contribute nothing.
\<close>

theorem registry_minimal_among_init_files:
  assumes "APIRegressionValidator_check root t = Inr r"
  shows "\<exists>x. imports_after root t k = Inr x
           \<and> ((x = None) = (k \<notin> fst ` set (concat (map dir_candidates (os_walk root t)))))
           \<and> (\<forall>v. x = Some v \<longrightarrow>
                  (k, v) \<in> set (concat (map dir_candidates (os_walk root t)))
                  \<and> (\<forall>v'. (k, v') \<in> set (concat (map dir_candidates (os_walk root t)))
                          \<longrightarrow> nsegs v \<le> nsegs v'))
           \<and> (\<forall>c \<in> set (concat (map dir_candidates (os_walk root t))).
                  \<exists>d name f imps imp. d \<in> set (os_walk root t) \<and> (name, f) \<in> set (snd d)
                     \<and> is_py (fst d) name \<and> is_init (fst d) name
                     \<and> parse_file f (fst d) = Inr imps \<and> imp \<in> set imps
                     \<and> c = candidate (package_of (fst d) name) imp
                     \<and> (os_sep \<notin> set name \<longrightarrow> name = ''__init__.py''))"
proof -
  let ?cs = "concat (map dir_candidates (os_walk root t))"
  let ?R = "registry_after (os_walk root t) Map.empty"
  have R: "?R = fold offer ?cs Map.empty" by (simp add: registry_after_def)
  have "walk_error (os_walk root t) = None" using check_api_Inr(1) [OF assms] .
  then have "RepoValidator_validate APIRegressionValidator_reason
        APIRegressionValidator_validate Map.empty root t =
      Inr (report APIRegressionValidator_reason (violations (os_walk root t) Map.empty), ?R)"
    using validate_api [of APIRegressionValidator_reason Map.empty root t] by simp
  then have 1: "imports_after root t k = Inr (?R k)"
    unfolding imports_after_def by simp
  have 2: "(?R k = None) = (k \<notin> fst ` set ?cs)"
    unfolding R using fold_offer_none [of ?cs Map.empty k] by simp
  have 3: "\<forall>v. ?R k = Some v \<longrightarrow> (k, v) \<in> set ?cs
             \<and> (\<forall>v'. (k, v') \<in> set ?cs \<longrightarrow> nsegs v \<le> nsegs v')"
  proof (intro allI impI conjI)
    fix v assume "?R k = Some v"
    then have "fold offer ?cs Map.empty k = Some v" unfolding R .
    then show "(k, v) \<in> set ?cs" using fold_offer_source [of ?cs Map.empty k v] by simp
  next
    fix v v' assume v: "?R k = Some v" and v': "(k, v') \<in> set ?cs"
    have "fold offer ?cs Map.empty k = Some v" using v unfolding R .
    then show "nsegs v \<le> nsegs v'" using v' by (rule fold_offer_minimal)
  qed
  have 4: "\<forall>c \<in> set ?cs. \<exists>d name f imps imp. d \<in> set (os_walk root t)
             \<and> (name, f) \<in> set (snd d) \<and> is_py (fst d) name \<and> is_init (fst d) name
             \<and> parse_file f (fst d) = Inr imps \<and> imp \<in> set imps
             \<and> c = candidate (package_of (fst d) name) imp
             \<and> (os_sep \<notin> set name \<longrightarrow> name = ''__init__.py'')"
  proof
    fix c assume "c \<in> set ?cs"
    then have "\<exists>d \<in> set (os_walk root t). c \<in> set (dir_candidates d)"
      by simp
    then obtain d where d: "d \<in> set (os_walk root t)" "c \<in> set (dir_candidates d)"
      by blast
    obtain r fs where rf: "d = (r, fs)" by (cases d)
    have "c \<in> set (dir_candidates (r, fs))" using d(2) rf by simp
    then obtain name f imps imp where m: "(name, f) \<in> set fs" "is_py r name"
      "is_init r name" "parse_file f r = Inr imps" "imp \<in> set imps"
      "c = candidate (package_of r name) imp"
      using dir_candidates_mem by blast
    have "d \<in> set (os_walk root t) \<and> (name, f) \<in> set (snd d) \<and> is_py (fst d) name
        \<and> is_init (fst d) name \<and> parse_file f (fst d) = Inr imps \<and> imp \<in> set imps
        \<and> c = candidate (package_of (fst d) name) imp
        \<and> (os_sep \<notin> set name \<longrightarrow> name = ''__init__.py'')"
      using d(1) m init_file_name [of name r] by (simp add: rf)
    then show "\<exists>d name f imps imp. d \<in> set (os_walk root t)
             \<and> (name, f) \<in> set (snd d) \<and> is_py (fst d) name \<and> is_init (fst d) name
             \<and> parse_file f (fst d) = Inr imps \<and> imp \<in> set imps
             \<and> c = candidate (package_of (fst d) name) imp
             \<and> (os_sep \<notin> set name \<longrightarrow> name = ''__init__.py'')"
      by blast
  qed
  show ?thesis
  proof (intro exI [of _ "?R k"] conjI)
    show "imports_after root t k = Inr (?R k)" by (rule 1)
    show "(?R k = None) = (k \<notin> fst ` set ?cs)" by (rule 2)
    show "\<forall>v. ?R k = Some v \<longrightarrow> (k, v) \<in> set ?cs
             \<and> (\<forall>v'. (k, v') \<in> set ?cs \<longrightarrow> nsegs v \<le> nsegs v')" by (rule 3)
    show "\<forall>c \<in> set ?cs. \<exists>d name f imps imp. d \<in> set (os_walk root t)
             \<and> (name, f) \<in> set (snd d) \<and> is_py (fst d) name \<and> is_init (fst d) name
             \<and> parse_file f (fst d) = Inr imps \<and> imp \<in> set imps
             \<and> c = candidate (package_of (fst d) name) imp
             \<and> (os_sep \<notin> set name \<longrightarrow> name = ''__init__.py'')" by (rule 4)
  qed
qed

theorem registry_minimal_among_init_files_witness:
  "\<exists>x. imports_after ''skbio'' scenario_tree ''foo'' = Inr x
     \<and> ((x = None) =
          (''foo'' \<notin> fst ` set (concat (map dir_candidates (os_walk ''skbio'' scenario_tree)))))
     \<and> (\<forall>v. x = Some v \<longrightarrow>
            (''foo'', v) \<in> set (concat (map dir_candidates (os_walk ''skbio'' scenario_tree)))
            \<and> (\<forall>v'. (''foo'', v')
                        \<in> set (concat (map dir_candidates (os_walk ''skbio'' scenario_tree)))
                    \<longrightarrow> nsegs v \<le> nsegs v'))
     \<and> (\<forall>c \<in> set (concat (map dir_candidates (os_walk ''skbio'' scenario_tree))).
            \<exists>d name f imps imp. d \<in> set (os_walk ''skbio'' scenario_tree)
               \<and> (name, f) \<in> set (snd d)
               \<and> is_py (fst d) name \<and> is_init (fst d) name
               \<and> parse_file f (fst d) = Inr imps \<and> imp \<in> set imps
               \<and> c = candidate (package_of (fst d) name) imp
               \<and> (os_sep \<notin> set name \<longrightarrow> name = ''__init__.py''))"
proof -
  have h: "APIRegressionValidator_check ''skbio'' scenario_tree =
      Inr (False, [APIRegressionValidator_reason @ '':'',
                   ''    skbio/sub/tests/test_mod.py: skbio.sub.mod.foo => skbio.sub.foo''])"
    by code_simp
  show ?thesis using registry_minimal_among_init_files [OF h] .
qed

subsection \<open>Two runs of one validator\<close>

text \<open>
  Claim C5 says that two runs of \<open>validate\<close> in succession give the same violation
  lists. On \<open>early_test_tree\<close> the first run of a validator flags nothing and the
  second run of the same validator flags the test file: the registry is created with
  the object, not with the run.
\<close>

theorem second_run_counterexample:
  "validate_twice ''skbio'' early_test_tree =
     Inr ((True, []),
          (False, [APIRegressionValidator_reason @ '':'',
                   ''    skbio/aaa/tests/test_x.py: skbio.sub.mod.foo => skbio.sub.foo'']))"
  by code_simp

text \<open>
  Claim C5, as amended. When \<open>validate\<close> runs twice in succession on the same
  validator and the same tree, the registry is the same after both runs. The
  registry is carried over from the first run, so the second run checks every test
  file against the complete registry, as a two-pass run would; its violation list
  can differ from the first run's.
\<close>

theorem second_run_keeps_registry:
  assumes "APIRegressionValidator_check root t = Inr r"
  shows "\<exists>R r2.
           RepoValidator_validate APIRegressionValidator_reason APIRegressionValidator_validate
             Map.empty root t = Inr (r, R)
           \<and> RepoValidator_validate APIRegressionValidator_reason
               APIRegressionValidator_validate R root t = Inr (r2, R)
           \<and> two_pass_validate root t = Inr r2
           \<and> validate_twice root t = Inr (r, r2)"
proof -
  let ?es = "os_walk root t"
  let ?R = "registry_after ?es Map.empty"
  let ?r2 = "report APIRegressionValidator_reason (check_loop ?R (concat (map dir_tests ?es)))"
  have ne: "walk_error ?es = None" using check_api_Inr(1) [OF assms] .
  have r: "r = report APIRegressionValidator_reason (violations ?es Map.empty)"
    using check_api_Inr(2) [OF assms] .
  have 1: "RepoValidator_validate APIRegressionValidator_reason APIRegressionValidator_validate
             Map.empty root t = Inr (r, ?R)"
    using validate_api [of APIRegressionValidator_reason Map.empty root t] ne r by simp
  have 2: "RepoValidator_validate APIRegressionValidator_reason APIRegressionValidator_validate
             ?R root t = Inr (?r2, ?R)"
    using validate_api [of APIRegressionValidator_reason ?R root t] ne
    by (simp add: registry_after_idem violations_second_run)
  have 3: "two_pass_validate root t = Inr ?r2"
    using ne by (simp add: two_pass_validate_def)
  have 4: "validate_twice root t = Inr (r, ?r2)"
    unfolding validate_twice_def by (simp add: 1 2)
  show ?thesis
  proof (intro exI [of _ ?R] exI [of _ ?r2] conjI)
    show "RepoValidator_validate APIRegressionValidator_reason APIRegressionValidator_validate
             Map.empty root t = Inr (r, ?R)" by (rule 1)
    show "RepoValidator_validate APIRegressionValidator_reason APIRegressionValidator_validate
             ?R root t = Inr (?r2, ?R)" by (rule 2)
    show "two_pass_validate root t = Inr ?r2" by (rule 3)
    show "validate_twice root t = Inr (r, ?r2)" by (rule 4)
  qed
qed

theorem second_run_keeps_registry_witness:
  "\<exists>R r2.
     RepoValidator_validate APIRegressionValidator_reason APIRegressionValidator_validate
       Map.empty ''skbio'' early_test_tree = Inr ((True, []), R)
     \<and> RepoValidator_validate APIRegressionValidator_reason
         APIRegressionValidator_validate R ''skbio'' early_test_tree = Inr (r2, R)
     \<and> two_pass_validate ''skbio'' early_test_tree = Inr r2
     \<and> validate_twice ''skbio'' early_test_tree = Inr ((True, []), r2)"
proof -
  have h: "APIRegressionValidator_check ''skbio'' early_test_tree = Inr (True, [])"
    by code_simp
  show ?thesis using second_run_keeps_registry [OF h] .
qed

subsection \<open>Return code and reports\<close>

lemma validate_report:
  assumes "RepoValidator_validate reason v s root t = Inr ((success, msg), s')"
  shows "\<exists>invalids. walk v root t (s, []) = Inr (s', invalids)
           \<and> success = (invalids = [])
           \<and> msg = (if invalids = [] then []
                    else (reason @ '':'') # map (\<lambda>invalid. ''    '' @ invalid) invalids)"
proof (cases "walk v root t (s, [])")
  case (Inl e)
  then show ?thesis using assms by (simp add: RepoValidator_validate_def)
next
  case (Inr x)
  obtain s1 invalids where x: "x = (s1, invalids)" by (cases x)
  have "walk v root t (s, []) = Inr (s', invalids) \<and> success = (invalids = [])
      \<and> msg = (if invalids = [] then []
               else (reason @ '':'') # map (\<lambda>invalid. ''    '' @ invalid) invalids)"
    using assms Inr x by (auto simp: RepoValidator_validate_def split: if_splits)
  then show ?thesis by (rule exI [of _ invalids])
qed

lemma main_status:
  assumes "\<forall>c \<in> set validators. \<exists>r. c ''skbio'' t = Inr r"
  shows "\<exists>rc. snd (main t) = Inr rc \<and> (rc = 0 \<or> rc = 1)
           \<and> (rc = 0) = (\<forall>c \<in> set validators. \<exists>m. c ''skbio'' t = Inr (True, m))
           \<and> (rc = 1) = (\<exists>c \<in> set validators. \<exists>m. c ''skbio'' t = Inr (False, m))"
proof -
  let ?all = "\<forall>c \<in> set validators. \<exists>m. c ''skbio'' t = Inr (True, m)"
  let ?rc = "if ?all then 0 else (1::int)"
  have m: "snd (main t) = Inr ?rc"
    unfolding main_def using main_loop_returns [OF assms, of 0 "[]"] .
  have some: "(\<not> ?all) = (\<exists>c \<in> set validators. \<exists>m. c ''skbio'' t = Inr (False, m))"
  proof
    assume "\<not> ?all"
    then obtain c where c: "c \<in> set validators" "\<forall>m. c ''skbio'' t \<noteq> Inr (True, m)"
      by blast
    obtain success msg where "c ''skbio'' t = Inr (success, msg)"
      using assms c(1) by fastforce
    then have "c ''skbio'' t = Inr (False, msg)" using c(2) by (cases success) auto
    then show "\<exists>c \<in> set validators. \<exists>m. c ''skbio'' t = Inr (False, m)"
      using c(1) by blast
  next
    assume "\<exists>c \<in> set validators. \<exists>m. c ''skbio'' t = Inr (False, m)"
    then show "\<not> ?all" by fastforce
  qed
  show ?thesis
  proof (cases ?all)
    case True
    then have f: "\<not> (\<exists>c \<in> set validators. \<exists>m. c ''skbio'' t = Inr (False, m))"
      using some by blast
    have "snd (main t) = Inr 0" using m True by simp
    then have "snd (main t) = Inr 0 \<and> ((0::int) = 0 \<or> (0::int) = 1)
        \<and> ((0::int) = 0) = ?all
        \<and> ((0::int) = 1) = (\<exists>c \<in> set validators. \<exists>m. c ''skbio'' t = Inr (False, m))"
      using True f by simp
    then show ?thesis by (rule exI [of _ 0])
  next
    case False
    then have f: "\<exists>c \<in> set validators. \<exists>m. c ''skbio'' t = Inr (False, m)"
      using some by blast
    have "snd (main t) = Inr 1" using m False by simp
    then have "snd (main t) = Inr 1 \<and> ((1::int) = 0 \<or> (1::int) = 1)
        \<and> ((1::int) = 0) = ?all
        \<and> ((1::int) = 1) = (\<exists>c \<in> set validators. \<exists>m. c ''skbio'' t = Inr (False, m))"
      using False f by simp
    then show ?thesis by (rule exI [of _ 1])
  qed
qed

lemma api_report_lines:
  assumes "APIRegressionValidator_check root t = Inr (success, msg)"
    and "line \<in> set (tl msg)"
  shows "\<exists>r fs name f imps imp sub. (r, fs) \<in> set (os_walk root t) \<and> (name, f) \<in> set fs
           \<and> is_py r name \<and> is_tests_dir r \<and> parse_file f r = Inr imps \<and> imp \<in> set imps
           \<and> nsegs sub \<noteq> nsegs imp
           \<and> (last_seg imp, sub) \<in> set (concat (map dir_candidates (os_walk root t)))
           \<and> line = ''    '' @ os_path_join r name @ '': '' @ imp @ '' => '' @ sub"
proof -
  let ?vs = "violations (os_walk root t) Map.empty"
  have "(success, msg) = report APIRegressionValidator_reason ?vs"
    using check_api_Inr(2) [OF assms(1)] .
  then have "tl msg = map (\<lambda>invalid. ''    '' @ invalid) ?vs"
    by (auto simp: report_def split: if_splits)
  then obtain item where item: "item \<in> set ?vs" "line = ''    '' @ item"
    using assms(2) by auto
  obtain r fs name f imps imp sub where 1: "(r, fs) \<in> set (os_walk root t)"
    "(name, f) \<in> set fs" "is_py r name" "is_tests_dir r" "parse_file f r = Inr imps"
    "imp \<in> set imps" "nsegs sub \<noteq> nsegs imp"
    "Map.empty (last_seg imp) = Some sub
       \<or> (last_seg imp, sub) \<in> set (concat (map dir_candidates (os_walk root t)))"
    "item = os_path_join r name @ '': '' @ imp @ '' => '' @ sub"
    using violations_lines [OF item(1)] by blast
  have 2: "(last_seg imp, sub) \<in> set (concat (map dir_candidates (os_walk root t)))"
    using 1(8) by simp
  have 3: "line = ''    '' @ os_path_join r name @ '': '' @ imp @ '' => '' @ sub"
    using item(2) 1(9) by simp
  show ?thesis using 1(1-7) 2 3 by blast
qed


text \<open>
  Claim C9. When no check raises, \<open>main\<close> returns 0 if every check passed and 1 if
  some check failed. A check succeeds exactly when it flagged nothing; the report of
  a failing check is its reason string with a colon, then the flagged items, each on
  a line of its own after four blanks. Every flagged line of the core check is
  \<open>file: used_import => minimal_import\<close>, for an import of a test file of the walk and
  a path offered for the imported symbol.
\<close>

theorem main_status_and_reports:
  assumes "\<forall>c \<in> set validators. \<exists>r. c ''skbio'' t = Inr r"
    and "RepoValidator_validate reason v s root t1 = Inr ((success, msg), s')"
  shows "(\<exists>rc. snd (main t) = Inr rc \<and> (rc = 0 \<or> rc = 1)
            \<and> (rc = 0) = (\<forall>c \<in> set validators. \<exists>m. c ''skbio'' t = Inr (True, m))
            \<and> (rc = 1) = (\<exists>c \<in> set validators. \<exists>m. c ''skbio'' t = Inr (False, m)))
         \<and> (\<exists>invalids. walk v root t1 (s, []) = Inr (s', invalids)
              \<and> success = (invalids = [])
              \<and> msg = (if invalids = [] then []
                       else (reason @ '':'') # map (\<lambda>invalid. ''    '' @ invalid) invalids))
         \<and> (\<exists>success2 msg2. APIRegressionValidator_check ''skbio'' t = Inr (success2, msg2)
              \<and> (\<forall>line \<in> set (tl msg2).
                    \<exists>r fs name f imps imp sub. (r, fs) \<in> set (os_walk ''skbio'' t)
                       \<and> (name, f) \<in> set fs \<and> is_py r name \<and> is_tests_dir r
                       \<and> parse_file f r = Inr imps \<and> imp \<in> set imps
                       \<and> nsegs sub \<noteq> nsegs imp
                       \<and> (last_seg imp, sub)
                            \<in> set (concat (map dir_candidates (os_walk ''skbio'' t)))
                       \<and> line = ''    '' @ os_path_join r name @ '': '' @ imp
                                  @ '' => '' @ sub))"
proof (intro conjI)
  show "\<exists>rc. snd (main t) = Inr rc \<and> (rc = 0 \<or> rc = 1)
            \<and> (rc = 0) = (\<forall>c \<in> set validators. \<exists>m. c ''skbio'' t = Inr (True, m))
            \<and> (rc = 1) = (\<exists>c \<in> set validators. \<exists>m. c ''skbio'' t = Inr (False, m))"
    using assms(1) by (rule main_status)
  show "\<exists>invalids. walk v root t1 (s, []) = Inr (s', invalids)
              \<and> success = (invalids = [])
              \<and> msg = (if invalids = [] then []
                       else (reason @ '':'') # map (\<lambda>invalid. ''    '' @ invalid) invalids)"
    using assms(2) by (rule validate_report)
  have "APIRegressionValidator_check \<in> set validators" by (simp add: validators_def)
  then obtain r where "APIRegressionValidator_check ''skbio'' t = Inr r"
    using assms(1) by blast
  then obtain success2 msg2 where a:
    "APIRegressionValidator_check ''skbio'' t = Inr (success2, msg2)"
    by (cases r) simp
  have "\<forall>line \<in> set (tl msg2).
          \<exists>r fs name f imps imp sub. (r, fs) \<in> set (os_walk ''skbio'' t)
             \<and> (name, f) \<in> set fs \<and> is_py r name \<and> is_tests_dir r
             \<and> parse_file f r = Inr imps \<and> imp \<in> set imps
             \<and> nsegs sub \<noteq> nsegs imp
             \<and> (last_seg imp, sub) \<in> set (concat (map dir_candidates (os_walk ''skbio'' t)))
             \<and> line = ''    '' @ os_path_join r name @ '': '' @ imp @ '' => '' @ sub"
    using api_report_lines [OF a] by blast
  then show "\<exists>success2 msg2. APIRegressionValidator_check ''skbio'' t = Inr (success2, msg2)
              \<and> (\<forall>line \<in> set (tl msg2).
                    \<exists>r fs name f imps imp sub. (r, fs) \<in> set (os_walk ''skbio'' t)
                       \<and> (name, f) \<in> set fs \<and> is_py r name \<and> is_tests_dir r
                       \<and> parse_file f r = Inr imps \<and> imp \<in> set imps
                       \<and> nsegs sub \<noteq> nsegs imp
                       \<and> (last_seg imp, sub)
                            \<in> set (concat (map dir_candidates (os_walk ''skbio'' t)))
                       \<and> line = ''    '' @ os_path_join r name @ '': '' @ imp
                                  @ '' => '' @ sub)"
    using a by blast
qed

theorem main_status_and_reports_witness:
  "(\<exists>rc. snd (main scenario_tree) = Inr rc \<and> (rc = 0 \<or> rc = 1)
      \<and> (rc = 0) = (\<forall>c \<in> set validators. \<exists>m. c ''skbio'' scenario_tree = Inr (True, m))
      \<and> (rc = 1) = (\<exists>c \<in> set validators. \<exists>m. c ''skbio'' scenario_tree = Inr (False, m)))
   \<and> (\<exists>invalids. walk (InitValidator_validate InitValidator_skip_dirs) ''skbio'' (Dir [] [])
                     ((), []) = Inr ((), invalids)
        \<and> False = (invalids = [])
        \<and> [''Directories missing init files:'', ''    skbio''] =
            (if invalids = [] then []
             else (InitValidator_reason @ '':'')
                    # map (\<lambda>invalid. ''    '' @ invalid) invalids))
   \<and> (\<exists>success2 msg2.
         APIRegressionValidator_check ''skbio'' scenario_tree = Inr (success2, msg2)
         \<and> (\<forall>line \<in> set (tl msg2).
               \<exists>r fs name f imps imp sub. (r, fs) \<in> set (os_walk ''skbio'' scenario_tree)
                  \<and> (name, f) \<in> set fs \<and> is_py r name \<and> is_tests_dir r
                  \<and> parse_file f r = Inr imps \<and> imp \<in> set imps
                  \<and> nsegs sub \<noteq> nsegs imp
                  \<and> (last_seg imp, sub)
                       \<in> set (concat (map dir_candidates (os_walk ''skbio'' scenario_tree)))
                  \<and> line = ''    '' @ os_path_join r name @ '': '' @ imp
                             @ '' => '' @ sub))"
proof -
  have i: "InitValidator_check ''skbio'' scenario_tree = Inr (True, [])" by code_simp
  have e: "ExecPermissionValidator_check ''skbio'' scenario_tree = Inr (True, [])"
    by code_simp
  have c: "GeneratedCythonValidator_check ''skbio'' scenario_tree = Inr (True, [])"
    by code_simp
  have a: "APIRegressionValidator_check ''skbio'' scenario_tree =
      Inr (False, [APIRegressionValidator_reason @ '':'',
                   ''    skbio/sub/tests/test_mod.py: skbio.sub.mod.foo => skbio.sub.foo''])"
    by code_simp
  have 1: "\<forall>c \<in> set validators. \<exists>r. c ''skbio'' scenario_tree = Inr r"
    by (auto simp: validators_def i e c a)
  have 2: "RepoValidator_validate InitValidator_reason
             (InitValidator_validate InitValidator_skip_dirs) () ''skbio'' (Dir [] []) =
           Inr ((False, [''Directories missing init files:'', ''    skbio'']), ())"
    by code_simp
  show ?thesis using main_status_and_reports [OF 1 2] .
qed

subsection \<open>Relative imports\<close>

lemma join_with_snoc:
  "xs \<noteq> [] \<Longrightarrow> join_with sep (xs @ [s]) = join_with sep xs @ sep @ s"
  by (induction sep xs rule: join_with.induct) auto

lemma join_with_last:
  "segs \<noteq> [] \<Longrightarrow> \<forall>s \<in> set segs. s \<noteq> [] \<and> c \<notin> set s
     \<Longrightarrow> join_with [c] segs \<noteq> [] \<and> last (join_with [c] segs) \<noteq> c"
proof (induction "[c]" segs rule: join_with.induct)
  case 1
  then show ?case by simp
next
  case (2 p)
  then show ?case using last_in_set [of p] by auto
next
  case (3 p q ps)
  then show ?case by auto
qed

lemma os_path_split_snoc:
  assumes "segs \<noteq> []" and "\<forall>s \<in> set segs. s \<noteq> [] \<and> os_sep \<notin> set s"
    and "os_sep \<notin> set s"
  shows "fst (os_path_split (join_with [os_sep] (segs @ [s]))) = join_with [os_sep] segs"
proof -
  let ?J = "join_with [os_sep] segs"
  have J: "?J \<noteq> []" "last ?J \<noteq> os_sep"
    using join_with_last [OF assms(1,2)] by simp_all
  have p: "join_with [os_sep] (segs @ [s]) = ?J @ [os_sep] @ s"
    using assms(1) by (rule join_with_snoc)
  have r: "rev (?J @ [os_sep] @ s) = rev s @ os_sep # rev ?J" by simp
  have d: "dropWhile (\<lambda>c. c \<noteq> os_sep) (rev s @ os_sep # rev ?J) = os_sep # rev ?J"
    using assms(3) by (auto simp: dropWhile_append3)
  have h: "rev (os_sep # rev ?J) = ?J @ [os_sep]" by simp
  have hd: "hd (rev ?J) \<noteq> os_sep" using J by (simp add: hd_rev)
  have rJ: "rev ?J \<noteq> []" using J by simp
  have n: "\<not> list_all (\<lambda>c. c = os_sep) (?J @ [os_sep])"
    using J last_in_set [of ?J] by (auto simp: list_all_iff)
  have dw: "dropWhile (\<lambda>c. c = os_sep) (rev (?J @ [os_sep])) = rev ?J"
    using hd rJ by (cases "rev ?J") auto
  show ?thesis
    unfolding p os_path_split_def Let_def r d h using n dw by simp
qed

lemma drop_levels_join:
  assumes "\<forall>s \<in> set segs. s \<noteq> [] \<and> os_sep \<notin> set s" and "n < length segs"
  shows "drop_levels n (join_with [os_sep] segs) = join_with [os_sep] (take (length segs - n) segs)"
  using assms
proof (induction n arbitrary: segs)
  case 0
  show ?case by simp
next
  case (Suc n)
  have ne: "segs \<noteq> []" using Suc.prems(2) by auto
  let ?b = "butlast segs"
  have segs: "segs = ?b @ [last segs]" using ne by simp
  have bne: "?b \<noteq> []" using Suc.prems(2) by (cases segs) (auto split: if_splits)
  have bv: "\<forall>s \<in> set ?b. s \<noteq> [] \<and> os_sep \<notin> set s"
    using Suc.prems(1) in_set_butlastD by fastforce
  have lv: "os_sep \<notin> set (last segs)" using Suc.prems(1) ne last_in_set by blast
  have "fst (os_path_split (join_with [os_sep] (?b @ [last segs]))) = join_with [os_sep] ?b"
    using os_path_split_snoc [OF bne bv lv] .
  then have s: "fst (os_path_split (join_with [os_sep] segs)) = join_with [os_sep] ?b"
    using segs by simp
  have n: "n < length ?b" using Suc.prems(2) by simp
  have "drop_levels (Suc n) (join_with [os_sep] segs) = drop_levels n (join_with [os_sep] ?b)"
    by (simp add: s)
  also have "\<dots> = join_with [os_sep] (take (length ?b - n) ?b)"
    using Suc.IH [OF bv n] .
  also have "take (length ?b - n) ?b = take (length segs - Suc n) segs"
    by (simp add: butlast_conv_take)
  finally show ?case .
qed

lemma replace_char_join:
  "\<forall>s \<in> set segs. a \<notin> set s \<Longrightarrow>
     replace_char a b (join_with [a] segs) = join_with [b] segs"
proof (induction "[a]" segs rule: join_with.induct)
  case 1
  show ?case by (simp add: replace_char_def)
next
  case (2 p)
  then have "map (\<lambda>c. if c = a then b else c) p = p" by (induction p) auto
  then show ?case by (simp add: replace_char_def)
next
  case (3 p q ps)
  have "map (\<lambda>c. if c = a then b else c) p = p" using 3(2) by (induction p) auto
  then show ?case using 3 by (simp add: replace_char_def)
qed

lemma relative_prefix:
  assumes "segs \<noteq> []" and "\<forall>s \<in> set segs. s \<noteq> [] \<and> os_sep \<notin> set s"
    and "0 < level" and "level \<le> length segs"
  shows "replace_char os_sep CHR ''.'' (drop_levels (level - 1) (join_with [os_sep] segs))
           @ ''.'' @ m = spec_absolute_module segs level m"
proof -
  let ?k = "length segs - (level - 1)"
  have n: "level - 1 < length segs" using assms(3,4) by simp
  have t: "take ?k segs \<noteq> []" using assms(1) n by simp
  have v: "\<forall>s \<in> set (take ?k segs). os_sep \<notin> set s"
    using assms(2) in_set_takeD by fastforce
  have "drop_levels (level - 1) (join_with [os_sep] segs) = join_with [os_sep] (take ?k segs)"
    using drop_levels_join [OF assms(2) n] .
  then have "replace_char os_sep CHR ''.'' (drop_levels (level - 1) (join_with [os_sep] segs))
      = join_with ''.'' (take ?k segs)"
    using replace_char_join [OF v, of "CHR ''.''"] by simp
  then show ?thesis
    unfolding spec_absolute_module_def using join_with_snoc [OF t, of "''.''" m] by simp
qed

lemma collect_imports_context:
  assumes "\<And>acc. collect_imports root (st1 # post) acc = collect_imports root (st2 # post) acc"
  shows "collect_imports root (pre @ st1 # post) acc = collect_imports root (pre @ st2 # post) acc"
proof (induction pre arbitrary: acc)
  case Nil
  show ?case using assms by simp
next
  case (Cons st pre)
  show ?case
  proof (cases st)
    case (Import names)
    then show ?thesis using Cons by simp
  next
    case (ImportFrom module names level)
    then show ?thesis using Cons by (cases module) (simp_all add: Let_def)
  next
    case OtherStmt
    then show ?thesis using Cons by simp
  qed
qed


lemma collect_from_import:
  "collect_imports root (ImportFrom (Some m) names level # post) acc =
     collect_imports root post
       (acc @ map (\<lambda>x. join_with ''.''
                 [(if level > 0
                   then replace_char os_sep CHR ''.'' (drop_levels (level - 1) root) @ ''.''
                   else []) @ m, x]) names)"
  by (cases "names = []") (simp_all add: Let_def)

text \<open>
  Claim C7. Take a file in the directory with path components \<open>segs\<close> (not empty, none
  of them empty or holding a slash, as the walk forms them) and a relative
  from-import of level \<open>N\<close> with \<open>1 \<le> N \<le> length segs\<close>, so that it stays inside the
  tree. Extracting it gives the same imports as extracting the absolute from-import
  of the module the specification describes: the directory's path with the last
  \<open>N - 1\<close> components dropped and the stated module appended. This holds among any
  other statements of the file; a file with this statement alone yields one path for
  each imported name.
\<close>

theorem relative_import_roundtrip:
  assumes "segs \<noteq> []" and "\<forall>s \<in> set segs. s \<noteq> [] \<and> os_sep \<notin> set s"
    and "0 < level" and "level \<le> length segs"
  shows "parse_file (f\<lparr>parsed := Module (pre @ ImportFrom (Some m) names level # post)\<rparr>)
           (join_with [os_sep] segs) =
         parse_file (f\<lparr>parsed := Module
                         (pre @ ImportFrom (Some (spec_absolute_module segs level m)) names 0
                            # post)\<rparr>)
           (join_with [os_sep] segs)
         \<and> parse_file (f\<lparr>parsed := Module [ImportFrom (Some m) names level]\<rparr>)
             (join_with [os_sep] segs) =
           Inr (filter (\<lambda>imp. hd (split_on CHR ''.'' imp) = ''skbio'')
                  (map (\<lambda>x. join_with ''.'' [spec_absolute_module segs level m, x]) names))"
proof -
  let ?root = "join_with [os_sep] segs"
  have pre: "replace_char os_sep CHR ''.'' (drop_levels (level - 1) ?root) @ ''.'' @ m
      = spec_absolute_module segs level m"
    using assms by (rule relative_prefix)
  have pre2: "(if level > 0
                then replace_char os_sep CHR ''.'' (drop_levels (level - 1) ?root) @ ''.''
                else []) @ m = spec_absolute_module segs level m"
    using pre assms(3) by simp
  have step: "collect_imports ?root (ImportFrom (Some m) names level # rest) acc =
      collect_imports ?root (ImportFrom (Some (spec_absolute_module segs level m)) names 0 # rest)
        acc" for rest acc
    by (simp only: collect_from_import pre2) simp
  have 1: "collect_imports ?root (pre @ ImportFrom (Some m) names level # post) [] =
      collect_imports ?root
        (pre @ ImportFrom (Some (spec_absolute_module segs level m)) names 0 # post) []"
    using step by (rule collect_imports_context)
  have 2: "collect_imports ?root [ImportFrom (Some m) names level] [] =
      Inr (map (\<lambda>x. join_with ''.'' [spec_absolute_module segs level m, x]) names)"
    by (simp only: collect_from_import pre2) simp
  have pm: "parse_file (f\<lparr>parsed := Module body\<rparr>) ?root =
      (case collect_imports ?root body [] of
         Inl e \<Rightarrow> Inl e
       | Inr imps \<Rightarrow> Inr (filter (\<lambda>imp. hd (split_on CHR ''.'' imp) = ''skbio'') imps))"
    for body
    by (simp add: parse_file_def)
  show ?thesis unfolding pm 1 2 by simp
qed

theorem relative_import_roundtrip_witness:
  "parse_file ((py_file [])\<lparr>parsed := Module
       ([Import [''os'']] @ ImportFrom (Some ''mod'') [''foo''] 2 # [OtherStmt])\<rparr>)
     (join_with [os_sep] [''skbio'', ''sub'', ''tests'']) =
   parse_file ((py_file [])\<lparr>parsed := Module
       ([Import [''os'']]
          @ ImportFrom (Some (spec_absolute_module [''skbio'', ''sub'', ''tests''] 2 ''mod''))
              [''foo''] 0
          # [OtherStmt])\<rparr>)
     (join_with [os_sep] [''skbio'', ''sub'', ''tests''])
   \<and> parse_file ((py_file [])\<lparr>parsed := Module [ImportFrom (Some ''mod'') [''foo''] 2]\<rparr>)
       (join_with [os_sep] [''skbio'', ''sub'', ''tests'']) =
     Inr (filter (\<lambda>imp. hd (split_on CHR ''.'' imp) = ''skbio'')
            (map (\<lambda>x. join_with ''.''
                         [spec_absolute_module [''skbio'', ''sub'', ''tests''] 2 ''mod'', x])
               [''foo'']))
   \<and> join_with [os_sep] [''skbio'', ''sub'', ''tests''] = ''skbio/sub/tests''
   \<and> spec_absolute_module [''skbio'', ''sub'', ''tests''] 2 ''mod'' = ''skbio.sub.mod''
   \<and> parse_file (py_file [ImportFrom (Some ''mod'') [''foo''] 2]) ''skbio/sub/tests''
       = Inr [''skbio.sub.mod.foo'']"
proof -
  have 1: "[''skbio'', ''sub'', ''tests''] \<noteq> []" by simp
  have 2: "\<forall>s \<in> set [''skbio'', ''sub'', ''tests'']. s \<noteq> [] \<and> os_sep \<notin> set s"
    by (simp add: os_sep_def)
  have 3: "0 < (2::nat)" by simp
  have 4: "(2::nat) \<le> length [''skbio'', ''sub'', ''tests'']" by simp
  have 5: "join_with [os_sep] [''skbio'', ''sub'', ''tests''] = ''skbio/sub/tests''"
    by code_simp
  have 6: "spec_absolute_module [''skbio'', ''sub'', ''tests''] 2 ''mod'' = ''skbio.sub.mod''"
    by code_simp
  have 7: "parse_file (py_file [ImportFrom (Some ''mod'') [''foo''] 2]) ''skbio/sub/tests''
       = Inr [''skbio.sub.mod.foo'']"
    by code_simp
  show ?thesis
    using relative_import_roundtrip [OF 1 2 3 4, where f = "py_file []"
        and pre = "[Import [''os'']]" and m = "''mod''" and names = "[''foo'']"
        and post = "[OtherStmt]"] 5 6 7
    by (intro conjI) blast+
qed

subsection \<open>Scenario A\<close>

lemma violations_append:
  "violations (xs @ ys) R = violations xs R @ violations ys (registry_after xs R)"
proof (induction xs arbitrary: R)
  case Nil
  show ?case by (simp add: registry_after_Nil)
next
  case (Cons d xs)
  show ?case by (simp add: Cons registry_after_Cons [of d xs])
qed

lemma violations_at:
  "set (check_loop (registry_after (before @ [d]) R) (dir_tests d))
     \<subseteq> set (violations (before @ d # later) R)"
  by (auto simp: violations_append registry_after_append)

lemma check_loop_mem:
  assumes "(fp, imps) \<in> set tis" and "imp \<in> set imps" and "minimal_import R imp = Some sub"
  shows "fp @ '': '' @ imp @ '' => '' @ sub \<in> set (check_loop R tis)"
proof -
  have "fp @ '': '' @ imp @ '' => '' @ sub \<in> set (check_file R (fp, imps))"
    unfolding check_file_def using assms(2,3) by force
  then show ?thesis unfolding check_loop_def using assms(1) by force
qed

lemma dir_tests_intro:
  assumes "(name, f) \<in> set fs" and "is_py r name" and "is_tests_dir r"
    and "parse_file f r = Inr imps"
  shows "(os_path_join r name, imps) \<in> set (dir_tests (r, fs))"
proof -
  have "file_tests r (name, f) = [(os_path_join r name, imps)]"
    using assms(2-4) by (simp add: file_tests_def)
  then show ?thesis unfolding dir_tests_def using assms(1) by force
qed

lemma dir_candidates_intro:
  assumes "(name, f) \<in> set fs" and "is_py r name" and "is_init r name"
    and "parse_file f r = Inr imps" and "imp \<in> set imps"
  shows "candidate (package_of r name) imp \<in> set (dir_candidates (r, fs))"
proof -
  have "file_candidates r (name, f) = map (candidate (package_of r name)) imps"
    using assms(2-4) by (simp add: file_candidates_def)
  then have "candidate (package_of r name) imp \<in> set (file_candidates r (name, f))"
    using assms(5) by simp
  then show ?thesis unfolding dir_candidates_def using assms(1) by force
qed


lemma scenario_candidate:
  "is_py ''skbio/sub'' ''__init__.py'' \<and> is_init ''skbio/sub'' ''__init__.py''
   \<and> candidate (package_of ''skbio/sub'' ''__init__.py'') ''skbio.sub.mod.foo''
       = (''foo'', ''skbio.sub.foo'')
   \<and> nsegs ''skbio.sub.foo'' = 3 \<and> nsegs ''skbio.sub.mod.foo'' = 4
   \<and> last_seg ''skbio.sub.mod.foo'' = ''foo''"
  by code_simp

text \<open>
  Claim C6 says that any test file with \<open>from pkg.sub.mod import foo\<close> is flagged. On
  \<open>early_test_tree\<close> the test file lies in \<open>skbio/aaa/tests\<close>, which the walk visits
  before \<open>skbio/sub\<close>: the registry has no entry for \<open>foo\<close> when the test is checked,
  and nothing is flagged.
\<close>

theorem scenario_A_counterexample:
  "APIRegressionValidator_check ''skbio'' early_test_tree = Inr (True, [])
   \<and> os_walk ''skbio'' early_test_tree =
       [(''skbio'', [(''__init__.py'', py_file [])]),
        (''skbio/aaa'', [(''__init__.py'', py_file [])]),
        (''skbio/aaa/tests'',
         [(''__init__.py'', py_file []),
          (''test_x.py'', py_file [ImportFrom (Some ''skbio.sub.mod'') [''foo''] 0])]),
        (''skbio/sub'',
         [(''__init__.py'', py_file [ImportFrom (Some ''skbio.sub.mod'') [''foo''] 0]),
          (''mod.py'', py_file [OtherStmt])])]"
  by code_simp

text \<open>
  Claim C6, as amended. The package is the library's own, \<open>skbio\<close>. Let
  \<open>skbio/sub/__init__.py\<close> import \<open>skbio.sub.mod.foo\<close> and be visited no later than
  the directory of the test file, and let no init file visited up to then offer
  another path for \<open>foo\<close> with three segments or fewer. Then a test file that imports
  \<open>skbio.sub.mod.foo\<close> is flagged, and the line names \<open>skbio.sub.foo\<close> as the minimal
  import.
\<close>

theorem scenario_A_flagged:
  assumes "APIRegressionValidator_check ''skbio'' t = Inr (success, msg)"
    and "os_walk ''skbio'' t = before @ (r, fs) # later"
    and "(''skbio/sub'', fs_sub) \<in> set (before @ [(r, fs)])"
    and "(''__init__.py'', f_init) \<in> set fs_sub"
    and "parse_file f_init ''skbio/sub'' = Inr imps_init"
    and "''skbio.sub.mod.foo'' \<in> set imps_init"
    and "(name, f) \<in> set fs" and "is_py r name" and "is_tests_dir r"
    and "parse_file f r = Inr imps" and "''skbio.sub.mod.foo'' \<in> set imps"
    and "\<forall>v. (''foo'', v) \<in> set (concat (map dir_candidates (before @ [(r, fs)])))
           \<longrightarrow> v = ''skbio.sub.foo'' \<or> 3 < nsegs v"
  shows "\<not> success
         \<and> ''    '' @ os_path_join r name @ '': skbio.sub.mod.foo => skbio.sub.foo''
             \<in> set msg"
proof -
  let ?pre = "before @ [(r, fs)]"
  let ?cs = "concat (map dir_candidates ?pre)"
  let ?R = "registry_after ?pre Map.empty"
  let ?line = "os_path_join r name @ '': '' @ ''skbio.sub.mod.foo'' @ '' => '' @ ''skbio.sub.foo''"
  have "candidate (package_of ''skbio/sub'' ''__init__.py'') ''skbio.sub.mod.foo''
      \<in> set (dir_candidates (''skbio/sub'', fs_sub))"
    using assms(4) scenario_candidate assms(5,6) by (intro dir_candidates_intro) simp_all
  then have "(''foo'', ''skbio.sub.foo'') \<in> set (dir_candidates (''skbio/sub'', fs_sub))"
    using scenario_candidate by simp
  then have c0: "(''foo'', ''skbio.sub.foo'') \<in> set ?cs"
    using assms(3) by force
  have R: "?R = fold offer ?cs Map.empty" by (simp add: registry_after_def)
  have "absorbs ?R (''foo'', ''skbio.sub.foo'')"
    unfolding R using c0 by (rule fold_offer_absorbs)
  then obtain s where s: "?R ''foo'' = Some s" "nsegs s \<le> 3"
    using scenario_candidate by (auto simp: absorbs_def split: option.splits)
  have "fold offer ?cs Map.empty ''foo'' = Some s" using s(1) unfolding R .
  then have "(''foo'', s) \<in> set ?cs"
    using fold_offer_source [of ?cs Map.empty "''foo''" s] by simp
  then have "s = ''skbio.sub.foo''" using assms(12) s(2) by fastforce
  then have "?R (last_seg ''skbio.sub.mod.foo'') = Some ''skbio.sub.foo''
      \<and> nsegs ''skbio.sub.foo'' \<noteq> nsegs ''skbio.sub.mod.foo''"
    using s(1) scenario_candidate by simp
  then have m: "minimal_import ?R ''skbio.sub.mod.foo'' = Some ''skbio.sub.foo''"
    using minimal_import_Some [of ?R "''skbio.sub.mod.foo''" "''skbio.sub.foo''"] by blast
  have "(os_path_join r name, imps) \<in> set (dir_tests (r, fs))"
    using assms(7-10) by (rule dir_tests_intro)
  then have "?line \<in> set (check_loop ?R (dir_tests (r, fs)))"
    using assms(11) m by (rule check_loop_mem)
  then have "?line \<in> set (violations (before @ (r, fs) # later) Map.empty)"
    using violations_at [of before "(r, fs)" Map.empty later] by blast
  then have v: "?line \<in> set (violations (os_walk ''skbio'' t) Map.empty)"
    using assms(2) by simp
  have "(success, msg) = report APIRegressionValidator_reason
      (violations (os_walk ''skbio'' t) Map.empty)"
    using check_api_Inr(2) [OF assms(1)] .
  then have "\<not> success \<and> ''    '' @ ?line \<in> set msg"
    using v by (auto simp: report_def split: if_splits)
  then show ?thesis by simp
qed


theorem scenario_A_flagged_witness:
  "\<not> False
   \<and> ''    '' @ os_path_join ''skbio/sub/tests'' ''test_mod.py''
         @ '': skbio.sub.mod.foo => skbio.sub.foo''
       \<in> set [APIRegressionValidator_reason @ '':'',
               ''    skbio/sub/tests/test_mod.py: skbio.sub.mod.foo => skbio.sub.foo'']"
proof -
  let ?d0 = "(''skbio'', [(''__init__.py'', py_file [])])"
  let ?fs_sub = "[(''__init__.py'', py_file [ImportFrom (Some ''mod'') [''foo''] 1]),
                  (''mod.py'', py_file [OtherStmt])]"
  let ?fs = "[(''__init__.py'', py_file []),
              (''test_mod.py'', py_file [ImportFrom (Some ''skbio.sub.mod'') [''foo''] 0])]"
  have 1: "APIRegressionValidator_check ''skbio'' scenario_tree =
      Inr (False, [APIRegressionValidator_reason @ '':'',
                   ''    skbio/sub/tests/test_mod.py: skbio.sub.mod.foo => skbio.sub.foo''])"
    by code_simp
  have 2: "os_walk ''skbio'' scenario_tree =
      [?d0, (''skbio/sub'', ?fs_sub)] @ (''skbio/sub/tests'', ?fs) # []"
    by code_simp
  have 3: "(''skbio/sub'', ?fs_sub)
      \<in> set ([?d0, (''skbio/sub'', ?fs_sub)] @ [(''skbio/sub/tests'', ?fs)])"
    by simp
  have 4: "(''__init__.py'', py_file [ImportFrom (Some ''mod'') [''foo''] 1]) \<in> set ?fs_sub"
    by simp
  have 5: "parse_file (py_file [ImportFrom (Some ''mod'') [''foo''] 1]) ''skbio/sub''
      = Inr [''skbio.sub.mod.foo'']"
    by code_simp
  have 6: "''skbio.sub.mod.foo'' \<in> set [''skbio.sub.mod.foo'']" by simp
  have 7: "(''test_mod.py'', py_file [ImportFrom (Some ''skbio.sub.mod'') [''foo''] 0])
      \<in> set ?fs"
    by simp
  have 8: "is_py ''skbio/sub/tests'' ''test_mod.py''" by code_simp
  have 9: "is_tests_dir ''skbio/sub/tests''" by code_simp
  have 10: "parse_file (py_file [ImportFrom (Some ''skbio.sub.mod'') [''foo''] 0])
      ''skbio/sub/tests'' = Inr [''skbio.sub.mod.foo'']"
    by code_simp
  have cs: "concat (map dir_candidates
      ([?d0, (''skbio/sub'', ?fs_sub)] @ [(''skbio/sub/tests'', ?fs)]))
      = [(''foo'', ''skbio.sub.foo'')]"
    by code_simp
  have 12: "\<forall>v. (''foo'', v) \<in> set (concat (map dir_candidates
      ([?d0, (''skbio/sub'', ?fs_sub)] @ [(''skbio/sub/tests'', ?fs)])))
      \<longrightarrow> v = ''skbio.sub.foo'' \<or> 3 < nsegs v"
    unfolding cs by simp
  show ?thesis using scenario_A_flagged [OF 1 2 3 4 5 6 7 8 9 10 6 12] .
qed

end
